theory Spec2Isabelle
  imports Main "HOL-Library.Multiset"
begin

section \<open>The determination task\<close>

text \<open>
  \<^verbatim>\<open>Char\<close> is an unsigned integer type of the surrounding library; its
  declaration is not part of \<^verbatim>\<open>determine.h\<close>. Only equality and the value
  \<open>0\<close> of a value-initialised vector element are used, so it is a natural number here.
\<close>

type_synonym Char = nat

text \<open>
  Modelled from the spec: the letters table \<^verbatim>\<open>Partition<char, ...>\<close> of
  \<^verbatim>\<open>partition.h\<close>, which is not part of \<^verbatim>\<open>determine.h\<close>. Iterating it yields
  entries \<open>(representative, (classIndex, members))\<close>, in a fixed order; its
  \<^verbatim>\<open>Size()\<close> is the number of entries.
\<close>

type_synonym LettersTbl = "(Char \<times> nat \<times> Char list) list"

record 's task_base =
  Letters :: LettersTbl
  Next :: "'s \<Rightarrow> Char \<Rightarrow> 's"

record 's DetermineTask = "'s task_base" +
  Initial :: 's
  IsRequired :: "'s \<Rightarrow> bool"

text \<open>\<^verbatim>\<open>Task::Result\<close>, with its two constructors \<^verbatim>\<open>Success()\<close> and \<^verbatim>\<open>Failure()\<close>.\<close>

datatype Result = Success | Failure

text \<open>The calls a drive makes on the sinks of its task, in the order they are made.\<close>

datatype 's sink_call = AcceptStates "'s list" | Connect nat nat Char

text \<open>The local variables of \<^verbatim>\<open>Determine\<close> that live across its first loop.\<close>

record 's bfs =
  states :: "'s list"
  invstates :: "'s \<rightharpoonup> nat"
  transitions :: "nat list list"
  stateIndices :: "nat list"
  maxSize :: nat

text \<open>
  How a loop of \<^verbatim>\<open>Determine\<close> ends: it runs to its end, it leaves through
  \<^verbatim>\<open>return task.Failure()\<close>, or it writes past the end of a vector, which C++
  leaves undefined.
\<close>

datatype 'a step = Ok 'a | Fail | Fault

text \<open>The undefined behaviour, as a result of \<^verbatim>\<open>Determine\<close>.\<close>

datatype fault = IndexOutOfRange

text \<open>
  The inner loop of lines 110 to 120, over the entries of \<^verbatim>\<open>task.Letters()\<close>, for
  the state \<open>s = states[stateIdx]\<close>. The test \<^verbatim>\<open>!maxSize--\<close> leaves when the budget is
  zero and takes one from it otherwise.
\<close>

fun row_loop ::
  "'s DetermineTask \<Rightarrow> 's \<Rightarrow> LettersTbl \<Rightarrow> 's bfs \<Rightarrow> nat list \<Rightarrow> ('s bfs \<times> nat list) step" where
  "row_loop task s [] st row = Ok (st, row)"
| "row_loop task s ((rep, idx, members) # ls) st row =
     (let newState = Next task s rep in
      case invstates st newState of
        None \<Rightarrow>
          if maxSize st = 0 then Fail
          else
            let i = length (states st);
                st' = st\<lparr>states := states st @ [newState],
                         invstates := (invstates st)(newState \<mapsto> i),
                         maxSize := maxSize st - 1\<rparr>
            in if idx < length row then row_loop task s ls st' (row[idx := i]) else Fault
      | Some i \<Rightarrow>
          if idx < length row then row_loop task s ls st (row[idx := i]) else Fault)"

lemma row_loop_budget:
  "row_loop task s ls st row = Ok (st', row') \<Longrightarrow>
     maxSize st' + length (states st') = maxSize st + length (states st)"
proof (induction ls arbitrary: st row)
  case Nil
  then show ?case by simp
next
  case (Cons e ls)
  obtain rep idx members where e: "e = (rep, idx, members)"
    by (cases e) auto
  show ?case
  proof (cases "invstates st (Next task s rep)")
    case None
    with Cons.prems e have pos: "maxSize st \<noteq> 0" and inr: "idx < length row"
      by (auto simp: Let_def split: if_splits)
    let ?st = "st\<lparr>states := states st @ [Next task s rep],
                    invstates := (invstates st)(Next task s rep \<mapsto> length (states st)),
                    maxSize := maxSize st - 1\<rparr>"
    from Cons.prems e None pos inr
    have "row_loop task s ls ?st (row[idx := length (states st)]) = Ok (st', row')"
      by (simp add: Let_def)
    from Cons.IH [OF this] pos show ?thesis by simp
  next
    case (Some i)
    with Cons.prems e have inr: "idx < length row"
      by (auto simp: Let_def split: if_splits)
    from Cons.prems e Some inr have "row_loop task s ls st (row[idx := i]) = Ok (st', row')"
      by (simp add: Let_def)
    from Cons.IH [OF this] show ?thesis .
  qed
qed

text \<open>
  The outer loop of lines 106 to 123. \<^verbatim>\<open>row\<close> starts as \<open>K\<close> zeros, \<open>K\<close> being
  \<^verbatim>\<open>task.Letters().Size()\<close>.
\<close>

function bfs_loop :: "'s DetermineTask \<Rightarrow> nat \<Rightarrow> 's bfs \<Rightarrow> 's bfs step" where
  "bfs_loop task stateIdx st =
     (if stateIdx < length (states st) then
        if \<not> IsRequired task (states st ! stateIdx) then bfs_loop task (stateIdx + 1) st
        else
          case row_loop task (states st ! stateIdx) (Letters task) st
                 (replicate (length (Letters task)) 0) of
            Ok (st', row) \<Rightarrow>
              bfs_loop task (stateIdx + 1)
                (st'\<lparr>transitions := transitions st' @ [row],
                     stateIndices := stateIndices st' @ [stateIdx]\<rparr>)
          | Fail \<Rightarrow> Fail
          | Fault \<Rightarrow> Fault
      else Ok st)"
  by pat_completeness auto
termination
proof (relation "measure (\<lambda>(task, stateIdx, st). maxSize st + length (states st) - stateIdx)")
  show "wf (measure (\<lambda>(task, stateIdx, st). maxSize st + length (states st) - stateIdx))"
    by simp
next
  fix task :: "'s DetermineTask" and stateIdx st
  assume "stateIdx < length (states st)"
  then show "((task, stateIdx + 1, st), (task, stateIdx, st))
      \<in> measure (\<lambda>(task, stateIdx, st). maxSize st + length (states st) - stateIdx)"
    by simp
next
  fix task :: "'s DetermineTask" and stateIdx st x1 st' row
  assume lt: "stateIdx < length (states st)"
    and run: "row_loop task (states st ! stateIdx) (Letters task) st
                (replicate (length (Letters task)) 0) = Ok x1"
    and x1: "(st', row) = x1"
  from run x1 have "maxSize st' + length (states st') = maxSize st + length (states st)"
    using row_loop_budget [of task "states st ! stateIdx" "Letters task" st _ st' row] by simp
  with lt show "((task, stateIdx + 1,
        st'\<lparr>transitions := transitions st' @ [row], stateIndices := stateIndices st' @ [stateIdx]\<rparr>),
       (task, stateIdx, st))
      \<in> measure (\<lambda>(task, stateIdx, st). maxSize st + length (states st) - stateIdx)"
    by simp
qed

declare bfs_loop.simps [simp del]

text \<open>
  Lines 125 to 127: \<^verbatim>\<open>invletters\<close>, filled from \<open>K\<close> zeros. A class index outside
  the vector is a write past its end.
\<close>

fun fill_invletters :: "LettersTbl \<Rightarrow> Char list \<Rightarrow> Char list option" where
  "fill_invletters [] invletters = Some invletters"
| "fill_invletters ((rep, idx, members) # ls) invletters =
     (if idx < length invletters then fill_invletters ls (invletters[idx := rep]) else None)"

text \<open>
  Lines 130 to 135: the \<^verbatim>\<open>Connect\<close> calls, one row of the transition table after the
  other; inside a row the iterators \<open>j\<close> and \<open>l\<close> walk the row and \<^verbatim>\<open>invletters\<close>
  side by side.
\<close>

definition connect_row :: "nat \<Rightarrow> nat list \<Rightarrow> Char list \<Rightarrow> 's sink_call list" where
  "connect_row from row invletters = map (\<lambda>(j, l). Connect from j l) (zip row invletters)"

definition connect_all :: "nat list \<Rightarrow> nat list list \<Rightarrow> Char list \<Rightarrow> 's sink_call list" where
  "connect_all stIdx tbl invletters =
     concat (map (\<lambda>from. connect_row (stIdx ! from) (tbl ! from) invletters)
       [0..<length tbl])"

definition Determine ::
  "'s DetermineTask \<Rightarrow> nat \<Rightarrow> fault + (Result \<times> 's sink_call list)" where
  "Determine task maxSize0 =
     (case bfs_loop task 0
             \<lparr>states = [Initial task], invstates = [Initial task \<mapsto> 0],
              transitions = [], stateIndices = [], maxSize = maxSize0\<rparr> of
        Fail \<Rightarrow> Inr (Failure, [])
      | Fault \<Rightarrow> Inl IndexOutOfRange
      | Ok st \<Rightarrow>
          (case fill_invletters (Letters task) (replicate (length (Letters task)) 0) of
             None \<Rightarrow> Inl IndexOutOfRange
           | Some invletters \<Rightarrow>
               Inr (Success,
                    AcceptStates (states st) #
                    connect_all (stateIndices st) (transitions st) invletters)))"

section \<open>The minimization task\<close>

type_synonym DeterminedTransitions = "nat list"

type_synonym StateClassMap = "nat list"

record MinimizeTask = "nat task_base" +
  IsDetermined :: bool
  Size :: nat
  SameClasses :: "nat \<Rightarrow> nat \<Rightarrow> bool"

text \<open>
  Modelled from the spec: \<^verbatim>\<open>Partition<T, Eq>\<close> of \<^verbatim>\<open>partition.h\<close>, which is not part of
  \<^verbatim>\<open>determine.h\<close>. A partition is the list of its classes, a class the list of its
  members in the order they came in. \<^verbatim>\<open>Append(x)\<close> puts \<open>x\<close> into the class of some
  existing \<open>y\<close> with \<open>Eq(x, y)\<close>, and starts a new class when there is none;
  \<^verbatim>\<open>Split(newEq)\<close> partitions the members of every class again, under \<open>newEq\<close>;
  \<^verbatim>\<open>Representative(x)\<close> is the canonical member of the class of \<open>x\<close>, its minimum. The
  spec says nothing of the representative of an \<open>x\<close> that was never appended: it is \<open>x\<close>
  here, and \<^verbatim>\<open>Minimize\<close> appends every state it asks the representative of.
\<close>

type_synonym 'a Partition = "'a list list"

fun Append :: "('a \<Rightarrow> 'a \<Rightarrow> bool) \<Rightarrow> 'a \<Rightarrow> 'a Partition \<Rightarrow> 'a Partition" where
  "Append eq x [] = [[x]]"
| "Append eq x (c # cs) =
     (if \<exists>y\<in>set c. eq x y then (c @ [x]) # cs else c # Append eq x cs)"

definition Split :: "('a \<Rightarrow> 'a \<Rightarrow> bool) \<Rightarrow> 'a Partition \<Rightarrow> 'a Partition" where
  "Split newEq p = concat (map (\<lambda>c. fold (Append newEq) c []) p)"

fun Representative :: "('a::linorder) Partition \<Rightarrow> 'a \<Rightarrow> 'a" where
  "Representative [] x = x"
| "Representative (c # cs) x = (if x \<in> set c then Min (set c) else Representative cs x)"

text \<open>
  \<^verbatim>\<open>MinimizeEquality::operator()\<close>. The pointers \<^verbatim>\<open>m_prev\<close> and \<^verbatim>\<open>m_task\<close> may be null.
  \<^verbatim>\<open>MaxChar\<close> is a constant of the surrounding library, a parameter here.
\<close>

definition MinimizeEquality ::
  "nat \<Rightarrow> DeterminedTransitions \<Rightarrow> Char list \<Rightarrow> StateClassMap option \<Rightarrow> MinimizeTask option \<Rightarrow>
   nat \<Rightarrow> nat \<Rightarrow> bool" where
  "MinimizeEquality MaxChar m_tbl m_letters m_prev m_task a b =
     (if (case m_task of Some task \<Rightarrow> \<not> SameClasses task a b | None \<Rightarrow> False) then False
      else
        case m_prev of
          Some prev \<Rightarrow>
            if prev ! a \<noteq> prev ! b then False
            else list_all (\<lambda>letter. prev ! (m_tbl ! (a * MaxChar + letter)) =
                                    prev ! (m_tbl ! (b * MaxChar + letter))) m_letters
        | None \<Rightarrow> True)"

text \<open>A failed assertion, as a result of \<^verbatim>\<open>Minimize\<close>.\<close>

datatype failure = AssertionFailed

text \<open>
  \<^verbatim>\<open>UpdateStateClassMap\<close>: the new map and whether an entry changed. \<^verbatim>\<open>Y_ASSERT\<close> stops
  the program on an empty map, where assertions are compiled in; where they are not, the
  loop over the empty map does nothing. The map is empty only for a task with no state,
  and the properties below are about tasks with a state or about drives that succeed.
\<close>

definition UpdateStateClassMap ::
  "StateClassMap \<Rightarrow> nat Partition \<Rightarrow> failure + (bool \<times> StateClassMap)" where
  "UpdateStateClassMap clMap stPartition =
     (if clMap = [] then Inl AssertionFailed
      else Inr (fold (\<lambda>st (changed, clMap).
                        let cl = Representative stPartition st
                        in if clMap ! st \<noteq> cl then (True, clMap[st := cl]) else (changed, clMap))
                  [0..<length clMap] (False, clMap)))"

text \<open>
  Lines 206 to 217: the letters that stand for their classes, and the flat table. A cell
  \<open>from * MaxChar + letter\<close> outside the table is a write past the end of the vector in
  C++ and no write here; likewise \<^verbatim>\<open>MinimizeEquality\<close> reads the table and the class map
  with \<open>!\<close>, which says nothing outside a list. The contract of the task
  (\<open>task_contract\<close> below) keeps every index inside, and what \<^verbatim>\<open>Minimize\<close> computes
  and how long its loop runs are stated within it.
\<close>

definition fill_letters ::
  "nat \<Rightarrow> MinimizeTask \<Rightarrow> Char \<Rightarrow> Char list \<Rightarrow> DeterminedTransitions \<Rightarrow> DeterminedTransitions" where
  "fill_letters MaxChar task representative members detTran =
     fold (\<lambda>from detTran.
             let next = Next task from representative
             in fold (\<lambda>letter detTran. detTran[from * MaxChar + letter := next]) members detTran)
       [0..<Size task] detTran"

definition build_table :: "nat \<Rightarrow> MinimizeTask \<Rightarrow> Char list \<times> DeterminedTransitions" where
  "build_table MaxChar task =
     fold (\<lambda>(representative, idx, members) (distinctLetters, detTran).
             (distinctLetters @ [representative],
              fill_letters MaxChar task representative members detTran))
       (Letters task) ([], replicate (Size task * MaxChar) 0)"

lemma Append_length: "length p \<le> length (Append eq x p) \<and> Append eq x p \<noteq> []"
  by (induction p) auto

lemma Append_nonempty: "[] \<notin> set p \<Longrightarrow> [] \<notin> set (Append eq x p)"
  by (induction p) auto

lemma Append_mset: "mset (concat (Append eq x p)) = add_mset x (mset (concat p))"
  by (induction p) auto

lemma fold_Append_length: "length q \<le> length (fold (Append eq) xs q)"
proof (induction xs arbitrary: q)
  case Nil
  show ?case by simp
next
  case (Cons x xs)
  from Cons [of "Append eq x q"] Append_length [of q eq x] show ?case
    by simp
qed

lemma fold_Append_nonempty: "[] \<notin> set q \<Longrightarrow> [] \<notin> set (fold (Append eq) xs q)"
  by (induction xs arbitrary: q) (simp_all add: Append_nonempty)

lemma fold_Append_mset: "mset (concat (fold (Append eq) xs q)) = mset xs + mset (concat q)"
  by (induction xs arbitrary: q) (simp_all add: Append_mset)

lemma fold_Append_single:
  "length (fold (Append eq) xs [d]) \<le> 1 \<Longrightarrow> fold (Append eq) xs [d] = [d @ xs]"
proof (induction xs arbitrary: d)
  case Nil
  show ?case by simp
next
  case (Cons x xs)
  show ?case
  proof (cases "\<exists>y\<in>set d. eq x y")
    case True
    with Cons.prems Cons.IH [of "d @ [x]"] show ?thesis by simp
  next
    case False
    with Cons.prems fold_Append_length [of "[d, [x]]" eq xs] show ?thesis by simp
  qed
qed

lemma regroup_single:
  "length (fold (Append eq) c []) \<le> 1 \<Longrightarrow> fold (Append eq) c [] = (if c = [] then [] else [c])"
proof (cases c)
  case Nil
  then show ?thesis by simp
next
  case (Cons x xs)
  assume "length (fold (Append eq) c []) \<le> 1"
  with Cons fold_Append_single [of eq xs "[x]"] show ?thesis by simp
qed

lemma regroup_length: "c \<noteq> [] \<Longrightarrow> 1 \<le> length (fold (Append eq) c [])"
proof (cases c)
  case Nil
  assume "c \<noteq> []"
  with Nil show ?thesis by simp
next
  case (Cons x xs)
  with fold_Append_length [of "[[x]]" eq xs] show ?thesis by simp
qed

lemma Split_nonempty: "[] \<notin> set (Split eq p)"
  using fold_Append_nonempty [of "[]" eq] by (auto simp: Split_def)

lemma Split_mset: "mset (concat (Split eq p)) = mset (concat p)"
  by (induction p) (simp_all add: Split_def fold_Append_mset)

lemma Split_Cons: "Split eq (c # p) = fold (Append eq) c [] @ Split eq p"
  by (simp add: Split_def)

lemma Split_length:
  "length (filter (\<lambda>c. c \<noteq> []) p) \<le> length (Split eq p) \<and>
   (length (Split eq p) \<le> length (filter (\<lambda>c. c \<noteq> []) p) \<longrightarrow>
      Split eq p = filter (\<lambda>c. c \<noteq> []) p)"
proof (induction p)
  case Nil
  show ?case by (simp add: Split_def)
next
  case (Cons c p)
  show ?case
  proof (cases "c = []")
    case True
    with Cons show ?thesis by (simp add: Split_Cons)
  next
    case False
    from regroup_length [OF False, of eq] regroup_single [of eq c] False Cons
    show ?thesis
      by (auto simp: Split_Cons)
  qed
qed

lemma Representative_filter:
  "Representative (filter (\<lambda>c. c \<noteq> []) p) x = Representative p x"
  by (induction p) auto

lemma nonempty_length_concat: "[] \<notin> set p \<Longrightarrow> length p \<le> length (concat p)"
proof (induction p)
  case Nil
  show ?case by simp
next
  case (Cons c p)
  then show ?case by (cases c) auto
qed

lemma UpdateStateClassMap_fold:
  "k \<le> length clMap \<Longrightarrow>
   fold (\<lambda>st (changed, clMap).
           let cl = Representative p st
           in if clMap ! st \<noteq> cl then (True, clMap[st := cl]) else (changed, clMap))
     [0..<k] (False, clMap) =
   (map (Representative p) [0..<k] \<noteq> take k clMap,
    map (Representative p) [0..<k] @ drop k clMap)"
proof (induction k)
  case 0
  show ?case by simp
next
  case (Suc k)
  let ?r = "Representative p"
  let ?m = "map ?r [0..<k] @ drop k clMap"
  from Suc.prems have k: "k < length clMap" by simp
  have len: "length (map ?r [0..<k]) = k" by simp
  from k have nth: "?m ! k = clMap ! k"
    by (simp add: nth_append)
  from k have upd: "?m[k := v] = map ?r [0..<k] @ v # drop (Suc k) clMap" for v
    by (simp add: list_update_append Cons_nth_drop_Suc [symmetric])
  from k have same: "?m = map ?r [0..<k] @ clMap ! k # drop (Suc k) clMap"
    by (simp add: Cons_nth_drop_Suc)
  from k have tk: "take (Suc k) clMap = take k clMap @ [clMap ! k]"
    by (simp add: take_Suc_conv_app_nth)
  show ?case
  proof (cases "clMap ! k = ?r k")
    case True
    with Suc.IH k nth same tk show ?thesis
      by (simp add: Let_def)
  next
    case False
    with Suc.IH k nth upd tk show ?thesis
      by (simp add: Let_def)
  qed
qed

lemma UpdateStateClassMap_eq:
  "UpdateStateClassMap clMap p =
     (if clMap = [] then Inl AssertionFailed
      else Inr (map (Representative p) [0..<length clMap] \<noteq> clMap,
                map (Representative p) [0..<length clMap]))"
  by (simp add: UpdateStateClassMap_def UpdateStateClassMap_fold)

text \<open>
  The loop of lines 230 to 232. \<open>rounds\<close> counts the calls of \<^verbatim>\<open>Split\<close>; the program
  does not keep that number.
\<close>

function refine_loop ::
  "nat \<Rightarrow> DeterminedTransitions \<Rightarrow> Char list \<Rightarrow> nat \<Rightarrow> StateClassMap \<Rightarrow> nat Partition \<Rightarrow>
   failure + (nat \<times> nat Partition)" where
  "refine_loop MaxChar detTran distinctLetters rounds stateClassMap last' =
     (case UpdateStateClassMap stateClassMap last' of
        Inl f \<Rightarrow> Inl f
      | Inr (changed, stateClassMap') \<Rightarrow>
          if changed
          then refine_loop MaxChar detTran distinctLetters (rounds + 1) stateClassMap'
                 (Split (MinimizeEquality MaxChar detTran distinctLetters (Some stateClassMap') None)
                    last')
          else Inr (rounds, last'))"
  by pat_completeness auto

text \<open>
  What the loop can still do: the members that could yet get a class of their own, and
  one more round when the map is not the map of the partition.
\<close>

definition slack :: "StateClassMap \<Rightarrow> nat Partition \<Rightarrow> nat" where
  "slack clMap p =
     (length (concat p) - length (filter (\<lambda>c. c \<noteq> []) p)) +
     (if map (Representative p) [0..<length clMap] = clMap then 0 else 1)"

lemma slack_Split:
  assumes "map (Representative p) [0..<length clMap] \<noteq> clMap"
  shows "slack (map (Representative p) [0..<length clMap]) (Split eq p) < slack clMap p"
proof -
  let ?ne = "filter (\<lambda>c. c \<noteq> []) p"
  let ?q = "Split eq p"
  have q_ne: "filter (\<lambda>c. c \<noteq> []) ?q = ?q"
    using Split_nonempty [of eq p] by (auto simp: filter_id_conv)
  have n: "length (concat ?q) = length (concat p)"
    using Split_mset [of eq p] by (metis size_mset)
  have k: "length ?q \<le> length (concat p)"
    using nonempty_length_concat [OF Split_nonempty, of eq p] n by simp
  show ?thesis
  proof (cases "length ?q \<le> length ?ne")
    case True
    with Split_length [of p eq] have "?q = ?ne" by blast
    then have "Representative ?q = Representative p"
      by (simp add: Representative_filter fun_eq_iff)
    with assms True \<open>?q = ?ne\<close> n show ?thesis
      by (simp add: slack_def q_ne)
  next
    case False
    have "slack (map (Representative p) [0..<length clMap]) ?q \<le>
        (length (concat p) - length ?q) + 1"
      by (simp add: slack_def q_ne n)
    moreover have "slack clMap p = (length (concat p) - length ?ne) + 1"
      using assms by (simp add: slack_def)
    ultimately show ?thesis
      using False k by arith
  qed
qed

termination refine_loop
proof (relation "measure (\<lambda>(MaxChar, detTran, distinctLetters, rounds, clMap, last').
                   slack clMap last')")
  show "wf (measure (\<lambda>(MaxChar, detTran, distinctLetters, rounds, clMap, last').
                   slack clMap last'))"
    by simp
next
  fix MaxChar detTran distinctLetters rounds and stateClassMap :: StateClassMap
    and last' :: "nat Partition" and x2 changed stateClassMap'
  assume upd: "UpdateStateClassMap stateClassMap last' = Inr x2"
    and x2: "(changed, stateClassMap') = x2" and changed
  from upd x2 \<open>changed\<close>
  have new: "stateClassMap' = map (Representative last') [0..<length stateClassMap]"
    and ch: "map (Representative last') [0..<length stateClassMap] \<noteq> stateClassMap"
    by (auto simp: UpdateStateClassMap_eq split: if_splits)
  from slack_Split [OF ch]
  show "((MaxChar, detTran, distinctLetters, rounds + 1, stateClassMap',
          Split (MinimizeEquality MaxChar detTran distinctLetters (Some stateClassMap') None) last'),
         (MaxChar, detTran, distinctLetters, rounds, stateClassMap, last'))
        \<in> measure (\<lambda>(MaxChar, detTran, distinctLetters, rounds, clMap, last'). slack clMap last')"
    by (simp add: new)
qed

declare refine_loop.simps [simp del]

datatype partition_call = AcceptPartition "nat Partition"

text \<open>Lines 206 to 232 of \<^verbatim>\<open>Minimize\<close>: what the loop leaves, and the number of its rounds.\<close>

definition Minimize_refine :: "nat \<Rightarrow> MinimizeTask \<Rightarrow> failure + (nat \<times> nat Partition)" where
  "Minimize_refine MaxChar task =
     (let (distinctLetters, detTran) = build_table MaxChar task;
          last' = fold (Append (MinimizeEquality MaxChar detTran distinctLetters None (Some task)))
                   [0..<Size task] [];
          stateClassMap = replicate (Size task) 0
      in refine_loop MaxChar detTran distinctLetters 0 stateClassMap last')"

definition Minimize :: "nat \<Rightarrow> MinimizeTask \<Rightarrow> failure + (Result \<times> partition_call list)" where
  "Minimize MaxChar task =
     (if \<not> IsDetermined task then Inr (Failure, [])
      else
        case Minimize_refine MaxChar task of
          Inl f \<Rightarrow> Inl f
        | Inr (rounds, last') \<Rightarrow> Inr (Success, [AcceptPartition last']))"

section \<open>Notions of the statements and of the proofs\<close>

text \<open>
  One pass of the inner loop in two steps: \<open>visit\<close> is the state after the lookup of
  \<open>x\<close> (and its insertion, when it is new), \<open>index_in\<close> the index the row gets.
\<close>

definition visit :: "'s bfs \<Rightarrow> 's \<Rightarrow> 's bfs" where
  "visit st x =
     (case invstates st x of
        None \<Rightarrow> st\<lparr>states := states st @ [x],
                     invstates := (invstates st)(x \<mapsto> length (states st)),
                     maxSize := maxSize st - 1\<rparr>
      | Some i \<Rightarrow> st)"

definition index_in :: "'s bfs \<Rightarrow> 's \<Rightarrow> nat" where
  "index_in st x = (case invstates st x of None \<Rightarrow> length (states st) | Some i \<Rightarrow> i)"

text \<open>The same state of the drive, with a budget larger by \<open>d\<close>.\<close>

definition add_budget :: "nat \<Rightarrow> 's bfs \<Rightarrow> 's bfs" where
  "add_budget d st = st\<lparr>maxSize := maxSize st + d\<rparr>"

text \<open>The state of the drive before the first loop, lines 103 and 104.\<close>

definition start :: "'s DetermineTask \<Rightarrow> nat \<Rightarrow> 's bfs" where
  "start task maxSize0 =
     \<lparr>states = [Initial task], invstates = [Initial task \<mapsto> 0],
      transitions = [], stateIndices = [], maxSize = maxSize0\<rparr>"

text \<open>
  The states the drive has to enumerate: the initial state, and every state that
  \<^verbatim>\<open>Next\<close> gives from a required one of them under the representative of a letter class.
\<close>

inductive_set reach :: "'s DetermineTask \<Rightarrow> 's set" for task :: "'s DetermineTask" where
  initial: "Initial task \<in> reach task"
| step: "s \<in> reach task \<Longrightarrow> IsRequired task s \<Longrightarrow> e \<in> set (Letters task) \<Longrightarrow>
         Next task s (fst e) \<in> reach task"

text \<open>\<^verbatim>\<open>invstates\<close> is the inverse of \<^verbatim>\<open>states\<close>.\<close>

definition inv_ok :: "'s bfs \<Rightarrow> bool" where
  "inv_ok st \<longleftrightarrow>
     (\<forall>x i. invstates st x = Some i \<longleftrightarrow> i < length (states st) \<and> states st ! i = x)"

text \<open>Every non-initial state of the vector was found from a required state before it.\<close>

definition has_parents :: "'s DetermineTask \<Rightarrow> 's list \<Rightarrow> bool" where
  "has_parents task xs \<longleftrightarrow>
     (\<forall>k. 0 < k \<and> k < length xs \<longrightarrow>
        (\<exists>i<k. IsRequired task (xs ! i) \<and>
           (\<exists>e\<in>set (Letters task). Next task (xs ! i) (fst e) = xs ! k)))"

text \<open>
  A row of the transition table, for the state of index \<open>i\<close>: at the index of every
  letter class stands the index of the state that the class's representative leads to.
\<close>

definition row_ok :: "'s DetermineTask \<Rightarrow> 's list \<Rightarrow> nat \<Rightarrow> nat list \<Rightarrow> bool" where
  "row_ok task xs i row \<longleftrightarrow>
     length row = length (Letters task) \<and> i < length xs \<and>
     (\<forall>e\<in>set (Letters task).
        row ! fst (snd e) < length xs \<and> xs ! (row ! fst (snd e)) = Next task (xs ! i) (fst e))"

text \<open>What holds of the drive whenever the outer loop is at \<open>stateIdx = k\<close>.\<close>

definition bfs_inv :: "'s DetermineTask \<Rightarrow> nat \<Rightarrow> 's bfs \<Rightarrow> bool" where
  "bfs_inv task k st \<longleftrightarrow>
     inv_ok st \<and> k \<le> length (states st) \<and> set (states st) \<subseteq> reach task \<and>
     (\<forall>i<k. IsRequired task (states st ! i) \<longrightarrow>
        (\<forall>e\<in>set (Letters task). Next task (states st ! i) (fst e) \<in> set (states st))) \<and>
     has_parents task (states st) \<and>
     stateIndices st = filter (\<lambda>i. IsRequired task (states st ! i)) [0..<k] \<and>
     length (transitions st) = length (stateIndices st) \<and>
     (\<forall>row\<in>set (transitions st). length row = length (Letters task)) \<and>
     (distinct (map (\<lambda>e. fst (snd e)) (Letters task)) \<longrightarrow>
        (\<forall>n<length (transitions st).
           row_ok task (states st) (stateIndices st ! n) (transitions st ! n)))"

text \<open>The first argument of a \<^verbatim>\<open>Connect\<close> call.\<close>

primrec from_index :: "'s sink_call \<Rightarrow> nat option" where
  "from_index (AcceptStates sts) = None"
| "from_index (Connect i j l) = Some i"

text \<open>
  The contract of a task given to \<^verbatim>\<open>Minimize\<close>: the representative of a letter class is
  one of its members, the members are symbols below \<^verbatim>\<open>MaxChar\<close> and lead where the
  representative leads, \<^verbatim>\<open>Next\<close> stays inside the states, and \<^verbatim>\<open>SameClasses\<close> is an
  equivalence of the states. Outside of it the C++ reads or writes outside its vectors.
\<close>

definition task_contract :: "nat \<Rightarrow> MinimizeTask \<Rightarrow> bool" where
  "task_contract MaxChar task \<longleftrightarrow>
     (\<forall>e\<in>set (Letters task).
        fst e \<in> set (snd (snd e)) \<and>
        (\<forall>l\<in>set (snd (snd e)). l < MaxChar \<and>
           (\<forall>s\<in>{0..<Size task}. Next task s l = Next task s (fst e)))) \<and>
     (\<forall>s\<in>{0..<Size task}. \<forall>e\<in>set (Letters task). Next task s (fst e) < Size task) \<and>
     (\<forall>a\<in>{0..<Size task}. SameClasses task a a) \<and>
     (\<forall>a\<in>{0..<Size task}. \<forall>b\<in>{0..<Size task}.
        SameClasses task a b \<longrightarrow> SameClasses task b a) \<and>
     (\<forall>a\<in>{0..<Size task}. \<forall>b\<in>{0..<Size task}. \<forall>c\<in>{0..<Size task}.
        SameClasses task a b \<longrightarrow> SameClasses task b c \<longrightarrow> SameClasses task a c)"

text \<open>The members of every class are related, pair by pair.\<close>

definition pairwise_in :: "('a \<Rightarrow> 'a \<Rightarrow> bool) \<Rightarrow> 'a Partition \<Rightarrow> bool" where
  "pairwise_in eq p \<longleftrightarrow> (\<forall>c\<in>set p. \<forall>a\<in>set c. \<forall>b\<in>set c. eq a b)"

text \<open>The classes of a partition of the states \<open>0..<n\<close>.\<close>

definition partition_of :: "nat \<Rightarrow> nat Partition \<Rightarrow> bool" where
  "partition_of n p \<longleftrightarrow> mset (concat p) = mset [0..<n] \<and> [] \<notin> set p"

text \<open>No class is split further: states of one class lead to states of one class.\<close>

definition stable :: "nat \<Rightarrow> DeterminedTransitions \<Rightarrow> Char list \<Rightarrow> nat Partition \<Rightarrow> bool" where
  "stable MaxChar detTran dl p \<longleftrightarrow>
     (\<forall>c\<in>set p. \<forall>a\<in>set c. \<forall>b\<in>set c. \<forall>l\<in>set dl.
        \<exists>c'\<in>set p. detTran ! (a * MaxChar + l) \<in> set c' \<and> detTran ! (b * MaxChar + l) \<in> set c')"

section \<open>Example tasks\<close>

text \<open>
  Determination tasks over states that are numbers: one whose initial state is not
  required; a chain \<open>0 \<rightarrow> 1 \<rightarrow> 2\<close> under one letter class; a cycle of three states
  under a first letter, with a second letter that stays; and three states of which
  state \<open>1\<close> is not required, with class indices in the reverse order of the letters.
\<close>

definition unrequired_task :: "nat DetermineTask" where
  "unrequired_task =
     \<lparr>Letters = [(97, 0, [97])], Next = (\<lambda>s c. s + 1), Initial = 7, IsRequired = (\<lambda>s. False)\<rparr>"

definition chain_task :: "nat DetermineTask" where
  "chain_task =
     \<lparr>Letters = [(97, 0, [97])], Next = (\<lambda>s c. min (s + 1) 2), Initial = 0,
      IsRequired = (\<lambda>s. True)\<rparr>"

definition cycle_task :: "nat DetermineTask" where
  "cycle_task =
     \<lparr>Letters = [(97, 0, [97]), (98, 1, [98])],
      Next = (\<lambda>s c. if c = 97 then (s + 1) mod 3 else s), Initial = 0,
      IsRequired = (\<lambda>s. True)\<rparr>"

definition gap_task :: "nat DetermineTask" where
  "gap_task =
     \<lparr>Letters = [(97, 1, [97]), (98, 0, [98])],
      Next = (\<lambda>s c. if c = 97 then (s + 1) mod 3 else if s = 0 then 2 else s), Initial = 0,
      IsRequired = (\<lambda>s. s \<noteq> 1)\<rparr>"

text \<open>
  Minimization tasks: four states in two acceptance classes whose members behave alike
  (letter \<open>0\<close> leads to the first class, the letters \<open>1\<close> and \<open>2\<close> to the second); a chain
  of four states of which only the last accepts; and a task that is not determined.
\<close>

definition ends_in_a :: MinimizeTask where
  "ends_in_a =
     \<lparr>Letters = [(0, 0, [0]), (1, 1, [1, 2])],
      Next = (\<lambda>s c. if c = 0 then (if s = 0 then 1 else 0) else (if s = 2 then 3 else 2)),
      IsDetermined = True, Size = 4,
      SameClasses = (\<lambda>a b. (a < 2) = (b < 2))\<rparr>"

definition chain4 :: MinimizeTask where
  "chain4 =
     \<lparr>Letters = [(0, 0, [0])],
      Next = (\<lambda>s c. min (s + 1) 3),
      IsDetermined = True, Size = 4,
      SameClasses = (\<lambda>a b. (a = 3) = (b = 3))\<rparr>"

definition undetermined_task :: MinimizeTask where
  "undetermined_task =
     \<lparr>Letters = [(97, 0, [97])], Next = (\<lambda>s c. s), IsDetermined = False, Size = 0,
      SameClasses = (\<lambda>a b. True)\<rparr>"

section \<open>Properties of the determination drive\<close>

lemma row_loop_Cons:
  "row_loop task s ((rep, idx, members) # ls) st row =
     (if invstates st (Next task s rep) = None \<and> maxSize st = 0 then Fail
      else if idx < length row
        then row_loop task s ls (visit st (Next task s rep))
               (row[idx := index_in st (Next task s rep)])
        else Fault)"
  by (simp add: visit_def index_in_def Let_def split: option.splits)

lemma row_loop_Cons_Ok:
  assumes "row_loop task s ((rep, idx, members) # ls) st row = Ok r"
  shows "idx < length row"
    and "row_loop task s ls (visit st (Next task s rep))
           (row[idx := index_in st (Next task s rep)]) = Ok r"
    and "invstates st (Next task s rep) = None \<Longrightarrow> 0 < maxSize st"
  using assms unfolding row_loop_Cons by (auto split: if_splits)

lemma add_budget_simps [simp]:
  "states (add_budget d st) = states st"
  "invstates (add_budget d st) = invstates st"
  "transitions (add_budget d st) = transitions st"
  "stateIndices (add_budget d st) = stateIndices st"
  "maxSize (add_budget d st) = maxSize st + d"
  by (simp_all add: add_budget_def)

lemma add_budget_table:
  "add_budget d (st\<lparr>transitions := a, stateIndices := b\<rparr>) =
     (add_budget d st)\<lparr>transitions := a, stateIndices := b\<rparr>"
  by (cases st) (simp add: add_budget_def)

lemma visit_shift:
  "invstates st x = None \<longrightarrow> 0 < maxSize st \<Longrightarrow>
   visit (add_budget d st) x = add_budget d (visit st x)"
  by (cases st) (auto simp: visit_def add_budget_def split: option.splits)

lemma index_in_shift: "index_in (add_budget d st) x = index_in st x"
  by (simp add: index_in_def split: option.splits)

lemma row_loop_shift:
  "row_loop task s ls st row = Ok (st', row') \<Longrightarrow>
   row_loop task s ls (add_budget d st) row = Ok (add_budget d st', row')"
proof (induction ls arbitrary: st row)
  case Nil
  then show ?case by simp
next
  case (Cons e ls)
  obtain rep idx members where e: "e = (rep, idx, members)"
    by (cases e) auto
  note ok = row_loop_Cons_Ok [OF Cons.prems [unfolded e]]
  have "row_loop task s ls (add_budget d (visit st (Next task s rep)))
          (row[idx := index_in st (Next task s rep)]) = Ok (add_budget d st', row')"
    by (rule Cons.IH [OF ok(2)])
  moreover from ok(3) have pos: "invstates st (Next task s rep) = None \<longrightarrow> 0 < maxSize st"
    by blast
  ultimately show ?case
    unfolding e row_loop_Cons using ok(1) by (auto simp: visit_shift [OF pos] index_in_shift)
qed

lemma bfs_loop_shift:
  "bfs_loop task k st = Ok st' \<Longrightarrow> bfs_loop task k (add_budget d st) = Ok (add_budget d st')"
proof (induction task k st rule: bfs_loop.induct)
  case (1 task stateIdx st)
  let ?s = "states st ! stateIdx"
  let ?std = "add_budget d st"
  show ?case
  proof (cases "stateIdx < length (states st)")
    case False
    with "1.prems" show ?thesis
      by (simp add: bfs_loop.simps [of task stateIdx])
  next
    case lt: True
    show ?thesis
    proof (cases "IsRequired task ?s")
      case False
      with lt "1.prems" have "bfs_loop task (stateIdx + 1) st = Ok st'"
        by (simp add: bfs_loop.simps [of task stateIdx st])
      from "1.IH"(1) [OF lt _ this] False
      have "bfs_loop task (stateIdx + 1) ?std = Ok (add_budget d st')"
        by simp
      with lt False show ?thesis
        by (simp add: bfs_loop.simps [of task stateIdx ?std])
    next
      case req: True
      from lt req "1.prems" obtain st1 row where
        row: "row_loop task ?s (Letters task) st (replicate (length (Letters task)) 0) = Ok (st1, row)"
        and rest: "bfs_loop task (stateIdx + 1)
            (st1\<lparr>transitions := transitions st1 @ [row],
                 stateIndices := stateIndices st1 @ [stateIdx]\<rparr>) = Ok st'"
        by (auto simp: bfs_loop.simps [of task stateIdx st] split: step.splits)
      from "1.IH"(2) [OF lt _ row refl rest] req
      have "bfs_loop task (stateIdx + 1)
              ((add_budget d st1)\<lparr>transitions := transitions st1 @ [row],
                   stateIndices := stateIndices st1 @ [stateIdx]\<rparr>)
            = Ok (add_budget d st')"
        by (simp add: add_budget_table)
      then show ?thesis
        using lt req row_loop_shift [OF row, of d]
        by (simp add: bfs_loop.simps [of task stateIdx ?std])
    qed
  qed
qed

lemma visit_states_append: "\<exists>new. states (visit st x) = states st @ new"
  by (simp add: visit_def split: option.splits)

lemma visit_table [simp]:
  "transitions (visit st x) = transitions st"
  "stateIndices (visit st x) = stateIndices st"
  by (simp_all add: visit_def split: option.splits)

lemma row_loop_states_append:
  "row_loop task s ls st row = Ok (st', row') \<Longrightarrow> \<exists>new. states st' = states st @ new"
proof (induction ls arbitrary: st row)
  case Nil
  then show ?case by simp
next
  case (Cons e ls)
  obtain rep idx members where e: "e = (rep, idx, members)"
    by (cases e) auto
  note ok = row_loop_Cons_Ok [OF Cons.prems [unfolded e]]
  from Cons.IH [OF ok(2)] visit_states_append [of st "Next task s rep"]
  show ?case by auto
qed

lemma bfs_loop_cases:
  assumes "bfs_loop task k st = Ok st'"
  obtains (stop) "\<not> k < length (states st)" "st' = st"
  | (skip) "k < length (states st)" "\<not> IsRequired task (states st ! k)"
      "bfs_loop task (k + 1) st = Ok st'"
  | (row) st1 row where "k < length (states st)" "IsRequired task (states st ! k)"
      "row_loop task (states st ! k) (Letters task) st (replicate (length (Letters task)) 0)
         = Ok (st1, row)"
      "bfs_loop task (k + 1)
         (st1\<lparr>transitions := transitions st1 @ [row], stateIndices := stateIndices st1 @ [k]\<rparr>)
         = Ok st'"
  using assms by (auto simp: bfs_loop.simps [of task k st] split: if_splits step.splits)

lemma bfs_loop_states_append:
  "bfs_loop task k st = Ok st' \<Longrightarrow> \<exists>new. states st' = states st @ new"
proof (induction task k st rule: bfs_loop.induct)
  case (1 task k st)
  from "1.prems" show ?case
  proof (cases rule: bfs_loop_cases)
    case stop
    then show ?thesis by simp
  next
    case skip
    from "1.IH"(1) [OF skip(1) _ skip(3)] skip(2) show ?thesis by simp
  next
    case (row st1 row)
    from "1.IH"(2) [OF row(1) _ row(3) refl row(4)] row(2)
      row_loop_states_append [OF row(3)]
    show ?thesis by auto
  qed
qed

lemma Determine_Success:
  "Determine task m = Inr (Success, tr) \<longleftrightarrow>
     (\<exists>st invletters. bfs_loop task 0 (start task m) = Ok st \<and>
        fill_invletters (Letters task) (replicate (length (Letters task)) 0) = Some invletters \<and>
        tr = AcceptStates (states st) #
             connect_all (stateIndices st) (transitions st) invletters)"
  by (auto simp: Determine_def start_def split: step.splits option.splits)

text \<open>
  Claim C2. If \<^verbatim>\<open>Determine(task, maxSize)\<close> returns \<^verbatim>\<open>Success()\<close>, the first sink call is
  \<^verbatim>\<open>AcceptStates\<close>, its vector is not empty and its element \<open>0\<close> is
  \<^verbatim>\<open>task.Initial()\<close>. Nothing is assumed of \<^verbatim>\<open>IsRequired\<close>: the witness is a task
  whose initial state is not required.
\<close>

theorem Determine_initial_first:
  assumes "Determine task maxSize0 = Inr (Success, tr)"
  shows "\<exists>sts rest. tr = AcceptStates sts # rest \<and> sts \<noteq> [] \<and> sts ! 0 = Initial task"
proof -
  from assms obtain st invletters where
    run: "bfs_loop task 0 (start task maxSize0) = Ok st"
    and tr: "tr = AcceptStates (states st) #
               connect_all (stateIndices st) (transitions st) invletters"
    unfolding Determine_Success by blast
  from bfs_loop_states_append [OF run] obtain new where "states st = Initial task # new"
    by (auto simp: start_def)
  with tr show ?thesis by simp
qed

theorem Determine_initial_first_witness:
  "Determine unrequired_task 0 = Inr (Success, [AcceptStates [7]]) \<and>
   \<not> IsRequired unrequired_task (Initial unrequired_task) \<and>
   (\<exists>sts rest. [AcceptStates [7]] = AcceptStates sts # rest \<and> sts \<noteq> [] \<and>
      sts ! 0 = Initial unrequired_task)"
proof -
  have run: "Determine unrequired_task 0 = Inr (Success, [AcceptStates [7]])"
    by (simp add: Determine_def unrequired_task_def bfs_loop.simps connect_all_def)
  from Determine_initial_first [OF run] run show ?thesis
    by (simp add: unrequired_task_def)
qed

text \<open>
  Claim C7. Budget monotonicity: if \<^verbatim>\<open>Determine(task, m1)\<close> returns \<^verbatim>\<open>Success()\<close>
  and \<open>m1 \<le> m2\<close>, then \<^verbatim>\<open>Determine(task, m2)\<close> returns \<^verbatim>\<open>Success()\<close> with the
  same sequence of sink calls.
\<close>

theorem Determine_budget_monotone:
  assumes "Determine task m1 = Inr (Success, tr)" and "m1 \<le> m2"
  shows "Determine task m2 = Inr (Success, tr)"
proof -
  from assms(1) obtain st invletters where
    run: "bfs_loop task 0 (start task m1) = Ok st"
    and inv: "fill_invletters (Letters task) (replicate (length (Letters task)) 0) = Some invletters"
    and tr: "tr = AcceptStates (states st) #
               connect_all (stateIndices st) (transitions st) invletters"
    unfolding Determine_Success by blast
  from assms(2) have "start task m2 = add_budget (m2 - m1) (start task m1)"
    by (simp add: start_def add_budget_def)
  with bfs_loop_shift [OF run, of "m2 - m1"]
  have "bfs_loop task 0 (start task m2) = Ok (add_budget (m2 - m1) st)"
    by simp
  with inv tr show ?thesis
    unfolding Determine_Success by simp
qed

theorem Determine_budget_monotone_witness:
  "Determine chain_task 2 =
     Inr (Success, [AcceptStates [0, 1, 2], Connect 0 1 97, Connect 1 2 97, Connect 2 2 97]) \<and>
   (2::nat) \<le> 5 \<and>
   Determine chain_task 5 =
     Inr (Success, [AcceptStates [0, 1, 2], Connect 0 1 97, Connect 1 2 97, Connect 2 2 97])"
proof -
  have run: "Determine chain_task 2 =
     Inr (Success, [AcceptStates [0, 1, 2], Connect 0 1 97, Connect 1 2 97, Connect 2 2 97])"
    by code_simp
  from Determine_budget_monotone [OF run, of 5] run show ?thesis
    by simp
qed

lemma inv_ok_distinct: "inv_ok st \<Longrightarrow> distinct (states st)"
  unfolding inv_ok_def distinct_conv_nth by (metis option.inject)

lemma inv_ok_None: "inv_ok st \<Longrightarrow> invstates st x = None \<longleftrightarrow> x \<notin> set (states st)"
  unfolding inv_ok_def in_set_conv_nth by (metis not_Some_eq)

lemma inv_ok_Some:
  "inv_ok st \<Longrightarrow> invstates st x = Some i \<Longrightarrow> i < length (states st) \<and> states st ! i = x"
  by (simp add: inv_ok_def)

lemma visit_None:
  "invstates st x = None \<Longrightarrow>
   visit st x = st\<lparr>states := states st @ [x],
                   invstates := (invstates st)(x \<mapsto> length (states st)),
                   maxSize := maxSize st - 1\<rparr>"
  by (simp add: visit_def)

lemma visit_Some: "invstates st x = Some i \<Longrightarrow> visit st x = st"
  by (simp add: visit_def)

lemma inv_ok_visit: "inv_ok st \<Longrightarrow> inv_ok (visit st x)"
proof (cases "invstates st x")
  case None
  assume ok: "inv_ok st"
  with None have new: "x \<notin> set (states st)"
    by (simp add: inv_ok_None)
  have "(if y = x then Some (length (states st)) else invstates st y) = Some i \<longleftrightarrow>
          i < Suc (length (states st)) \<and> (states st @ [x]) ! i = y" for y i
  proof (cases "i < length (states st)")
    case True
    with ok new show ?thesis
      by (auto simp: inv_ok_def nth_append)
  next
    case False
    with ok show ?thesis
      by (auto simp: inv_ok_def nth_append less_Suc_eq)
  qed
  then show ?thesis
    by (simp add: visit_None [OF None] inv_ok_def)
next
  case (Some i)
  assume "inv_ok st"
  with Some show ?thesis by (simp add: visit_Some)
qed

lemma visit_states:
  "inv_ok st \<Longrightarrow>
   states (visit st x) = (if x \<in> set (states st) then states st else states st @ [x])"
proof (cases "invstates st x")
  case None
  assume "inv_ok st"
  with None show ?thesis
    by (simp add: visit_None inv_ok_None)
next
  case (Some i)
  assume "inv_ok st"
  from inv_ok_Some [OF this Some] Some show ?thesis
    by (auto simp: visit_Some)
qed

lemma visit_set: "inv_ok st \<Longrightarrow> set (states (visit st x)) = insert x (set (states st))"
  by (auto simp: visit_states)

lemma index_in_visit:
  "inv_ok st \<Longrightarrow>
   index_in st x < length (states (visit st x)) \<and> states (visit st x) ! index_in st x = x"
proof (cases "invstates st x")
  case None
  then show ?thesis
    by (simp add: visit_None index_in_def)
next
  case (Some i)
  assume "inv_ok st"
  from inv_ok_Some [OF this Some] Some show ?thesis
    by (simp add: visit_Some index_in_def)
qed

lemma visit_budget:
  "invstates st x = None \<longrightarrow> 0 < maxSize st \<Longrightarrow>
   maxSize (visit st x) + length (states (visit st x)) = maxSize st + length (states st)"
  by (cases "invstates st x") (auto simp: visit_def)

lemma row_loop_inv_ok:
  "row_loop task s ls st row = Ok (st', row') \<Longrightarrow> inv_ok st \<Longrightarrow> inv_ok st'"
proof (induction ls arbitrary: st row)
  case Nil
  then show ?case by simp
next
  case (Cons e ls)
  obtain rep idx members where e: "e = (rep, idx, members)"
    by (cases e) auto
  note ok = row_loop_Cons_Ok [OF Cons.prems(1) [unfolded e]]
  from Cons.IH [OF ok(2)] Cons.prems(2) show ?case
    by (simp add: inv_ok_visit)
qed

lemma row_loop_set:
  "row_loop task s ls st row = Ok (st', row') \<Longrightarrow> inv_ok st \<Longrightarrow>
   set (states st') = set (states st) \<union> (\<lambda>e. Next task s (fst e)) ` set ls"
proof (induction ls arbitrary: st row)
  case Nil
  then show ?case by simp
next
  case (Cons e ls)
  obtain rep idx members where e: "e = (rep, idx, members)"
    by (cases e) auto
  note ok = row_loop_Cons_Ok [OF Cons.prems(1) [unfolded e]]
  from Cons.IH [OF ok(2)] Cons.prems(2) show ?case
    by (simp add: inv_ok_visit visit_set e)
qed

lemma row_loop_table:
  "row_loop task s ls st row = Ok (st', row') \<Longrightarrow>
   transitions st' = transitions st \<and> stateIndices st' = stateIndices st \<and>
   length row' = length row"
proof (induction ls arbitrary: st row)
  case Nil
  then show ?case by simp
next
  case (Cons e ls)
  obtain rep idx members where e: "e = (rep, idx, members)"
    by (cases e) auto
  note ok = row_loop_Cons_Ok [OF Cons.prems(1) [unfolded e]]
  from Cons.IH [OF ok(2)] show ?case
    by simp
qed

lemma has_parents_snoc:
  assumes "has_parents task xs" and "i < length xs" and "IsRequired task (xs ! i)"
    and "e \<in> set (Letters task)"
  shows "has_parents task (xs @ [Next task (xs ! i) (fst e)])"
  unfolding has_parents_def
proof (intro allI impI)
  fix k
  assume k: "0 < k \<and> k < length (xs @ [Next task (xs ! i) (fst e)])"
  let ?ys = "xs @ [Next task (xs ! i) (fst e)]"
  show "\<exists>j<k. IsRequired task (?ys ! j) \<and> (\<exists>e'\<in>set (Letters task). Next task (?ys ! j) (fst e') = ?ys ! k)"
  proof (cases "k < length xs")
    case True
    with k assms(1) obtain j e' where "j < k" "IsRequired task (xs ! j)"
      "e' \<in> set (Letters task)" "Next task (xs ! j) (fst e') = xs ! k"
      unfolding has_parents_def by blast
    with True show ?thesis
      by (auto simp: nth_append intro!: exI [of _ j])
  next
    case False
    with k have "k = length xs" by simp
    with assms(2-4) show ?thesis
      by (auto simp: nth_append intro!: exI [of _ i])
  qed
qed

lemma row_loop_parents:
  "row_loop task (states st ! i) ls st row = Ok (st', row') \<Longrightarrow> inv_ok st \<Longrightarrow>
   i < length (states st) \<Longrightarrow> IsRequired task (states st ! i) \<Longrightarrow>
   set ls \<subseteq> set (Letters task) \<Longrightarrow> has_parents task (states st) \<Longrightarrow>
   has_parents task (states st')"
proof (induction ls arbitrary: st row)
  case Nil
  then show ?case by simp
next
  case (Cons e ls)
  obtain rep idx members where e: "e = (rep, idx, members)"
    by (cases e) auto
  let ?x = "Next task (states st ! i) rep"
  let ?st = "visit st ?x"
  note ok = row_loop_Cons_Ok [OF Cons.prems(1) [unfolded e]]
  from visit_states [OF Cons.prems(2), of ?x] Cons.prems(3)
  have same: "states ?st ! i = states st ! i" and lt: "i < length (states ?st)"
    by (auto simp: nth_append)
  from Cons.prems(5) e have "e \<in> set (Letters task)" by simp
  from has_parents_snoc [OF Cons.prems(6) Cons.prems(3) Cons.prems(4) this] Cons.prems(6)
  have par: "has_parents task (states ?st)"
    by (simp add: visit_states [OF Cons.prems(2)] e)
  from ok(2) have "row_loop task (states ?st ! i) ls ?st
      (row[idx := index_in st ?x]) = Ok (st', row')"
    by (simp add: same)
  from Cons.IH [OF this inv_ok_visit [OF Cons.prems(2)] lt _ _ par] Cons.prems(4,5) same
  show ?case by simp
qed

text \<open>What a finished row holds, when the class indices of the letters are distinct.\<close>

lemma row_loop_row:
  "row_loop task s ls st row = Ok (st', row') \<Longrightarrow> inv_ok st \<Longrightarrow>
   distinct (map (\<lambda>e. fst (snd e)) ls) \<Longrightarrow>
   (\<forall>e\<in>set ls. row' ! fst (snd e) < length (states st') \<and>
       states st' ! (row' ! fst (snd e)) = Next task s (fst e)) \<and>
   (\<forall>c. c \<notin> (\<lambda>e. fst (snd e)) ` set ls \<longrightarrow> row' ! c = row ! c)"
proof (induction ls arbitrary: st row)
  case Nil
  then show ?case by simp
next
  case (Cons e ls)
  obtain rep idx members where e: "e = (rep, idx, members)"
    by (cases e) auto
  let ?x = "Next task s rep"
  let ?st = "visit st ?x"
  let ?row = "row[idx := index_in st ?x]"
  note ok = row_loop_Cons_Ok [OF Cons.prems(1) [unfolded e]]
  from Cons.prems(3) e have dist: "distinct (map (\<lambda>e. fst (snd e)) ls)"
    and fresh: "idx \<notin> (\<lambda>e. fst (snd e)) ` set ls"
    by auto
  note IH = Cons.IH [OF ok(2) inv_ok_visit [OF Cons.prems(2)] dist]
  from IH fresh ok(1) have at: "row' ! idx = index_in st ?x"
    by simp
  from row_loop_states_append [OF ok(2)] obtain new where new: "states st' = states ?st @ new"
    by blast
  from index_in_visit [OF Cons.prems(2), of ?x] new
  have "index_in st ?x < length (states st') \<and> states st' ! index_in st ?x = ?x"
    by (simp add: nth_append)
  with at IH show ?case
    by (auto simp: e)
qed

lemma row_loop_no_fail:
  "inv_ok st \<Longrightarrow> \<forall>e\<in>set ls. fst (snd e) < length row \<Longrightarrow> finite R \<Longrightarrow>
   set (states st) \<subseteq> R \<Longrightarrow> \<forall>e\<in>set ls. Next task s (fst e) \<in> R \<Longrightarrow>
   card R \<le> maxSize st + length (states st) \<Longrightarrow>
   \<exists>r. row_loop task s ls st row = Ok r"
proof (induction ls arbitrary: st row)
  case Nil
  then show ?case by simp
next
  case (Cons e ls)
  obtain rep idx members where e: "e = (rep, idx, members)"
    by (cases e) auto
  let ?x = "Next task s rep"
  let ?st = "visit st ?x"
  from Cons.prems(5) e have x: "?x \<in> R" by simp
  have pos: "invstates st ?x = None \<longrightarrow> 0 < maxSize st"
  proof
    assume "invstates st ?x = None"
    with Cons.prems(1) have "?x \<notin> set (states st)"
      by (simp add: inv_ok_None)
    with x Cons.prems(4) have "set (states st) \<subset> R" by blast
    with Cons.prems(3) have "card (set (states st)) < card R"
      by (rule psubset_card_mono)
    with inv_ok_distinct [OF Cons.prems(1)] Cons.prems(6) show "0 < maxSize st"
      by (simp add: distinct_card)
  qed
  from Cons.prems(2) e have idx: "idx < length row" by simp
  have "\<exists>r. row_loop task s ls ?st (row[idx := index_in st ?x]) = Ok r"
  proof (rule Cons.IH)
    show "inv_ok ?st" by (rule inv_ok_visit [OF Cons.prems(1)])
    show "\<forall>e\<in>set ls. fst (snd e) < length (row[idx := index_in st ?x])"
      using Cons.prems(2) by simp
    show "finite R" by fact
    show "set (states ?st) \<subseteq> R"
      using Cons.prems(4) x by (simp add: visit_set [OF Cons.prems(1)])
    show "\<forall>e\<in>set ls. Next task s (fst e) \<in> R"
      using Cons.prems(5) by simp
    show "card R \<le> maxSize ?st + length (states ?st)"
      using Cons.prems(6) visit_budget [OF pos] by simp
  qed
  with pos idx show ?case
    unfolding e row_loop_Cons by auto
qed

lemma row_loop_Fault:
  "row_loop task s ls st row \<noteq> Fault" if "\<forall>e\<in>set ls. fst (snd e) < length row"
  using that
proof (induction ls arbitrary: st row)
  case Nil
  then show ?case by simp
next
  case (Cons e ls)
  obtain rep idx members where e: "e = (rep, idx, members)"
    by (cases e) auto
  from Cons.prems have "\<forall>e\<in>set ls. fst (snd e) < length (row[idx := v])" for v
    by simp
  from Cons.IH [OF this] Cons.prems show ?case
    unfolding e row_loop_Cons by simp
qed

lemma row_ok_append: "row_ok task xs i row \<Longrightarrow> row_ok task (xs @ new) i row"
  by (auto simp: row_ok_def nth_append)

lemma inv_ok_table [simp]:
  "inv_ok (st\<lparr>transitions := a, stateIndices := b\<rparr>) = inv_ok st"
  by (simp add: inv_ok_def)

lemma bfs_inv_start: "bfs_inv task 0 (start task m)"
  by (auto simp: bfs_inv_def start_def inv_ok_def has_parents_def reach.initial)

lemma bfs_inv_skip:
  assumes "bfs_inv task k st" and "k < length (states st)"
    and "\<not> IsRequired task (states st ! k)"
  shows "bfs_inv task (k + 1) st"
  using assms unfolding bfs_inv_def by (auto simp: less_Suc_eq)

lemma bfs_inv_row:
  assumes inv: "bfs_inv task k st" and lt: "k < length (states st)"
    and req: "IsRequired task (states st ! k)"
    and row: "row_loop task (states st ! k) (Letters task) st
                (replicate (length (Letters task)) 0) = Ok (st1, row)"
  shows "bfs_inv task (k + 1)
           (st1\<lparr>transitions := transitions st1 @ [row], stateIndices := stateIndices st1 @ [k]\<rparr>)"
proof -
  let ?xs = "states st" and ?ys = "states st1"
  from inv have ok: "inv_ok st" and sub: "set ?xs \<subseteq> reach task"
    and closed: "\<forall>i<k. IsRequired task (?xs ! i) \<longrightarrow>
        (\<forall>e\<in>set (Letters task). Next task (?xs ! i) (fst e) \<in> set ?xs)"
    and par: "has_parents task ?xs"
    and si: "stateIndices st = filter (\<lambda>i. IsRequired task (?xs ! i)) [0..<k]"
    and len: "length (transitions st) = length (stateIndices st)"
    and lens: "\<forall>row\<in>set (transitions st). length row = length (Letters task)"
    and rows: "distinct (map (\<lambda>e. fst (snd e)) (Letters task)) \<longrightarrow>
        (\<forall>n<length (transitions st). row_ok task ?xs (stateIndices st ! n) (transitions st ! n))"
    unfolding bfs_inv_def by blast+
  from row_loop_states_append [OF row] obtain new where new: "?ys = ?xs @ new"
    by blast
  have same: "?ys ! i = ?xs ! i" if "i \<le> k" for i
    using that lt by (simp add: new nth_append)
  note tbl = row_loop_table [OF row]
  note set_eq = row_loop_set [OF row ok]
  have ok1: "inv_ok st1"
    by (rule row_loop_inv_ok [OF row ok])
  have lt1: "k + 1 \<le> length ?ys"
    using lt by (simp add: new)
  have sub1: "set ?ys \<subseteq> reach task"
  proof -
    from lt sub have "?xs ! k \<in> reach task" by auto
    with req have "Next task (?xs ! k) (fst e) \<in> reach task" if "e \<in> set (Letters task)" for e
      using that by (auto intro: reach.step)
    with sub show ?thesis
      unfolding set_eq by auto
  qed
  have closed1: "\<forall>i<k + 1. IsRequired task (?ys ! i) \<longrightarrow>
        (\<forall>e\<in>set (Letters task). Next task (?ys ! i) (fst e) \<in> set ?ys)"
  proof (intro allI impI ballI)
    fix i e
    assume i: "i < k + 1" and r: "IsRequired task (?ys ! i)" and e: "e \<in> set (Letters task)"
    show "Next task (?ys ! i) (fst e) \<in> set ?ys"
    proof (cases "i = k")
      case True
      with e show ?thesis
        unfolding set_eq by (simp add: same)
    next
      case False
      with i have "i < k" by simp
      with closed r e same [of i] have "Next task (?xs ! i) (fst e) \<in> set ?xs"
        by simp
      with \<open>i < k\<close> show ?thesis
        unfolding set_eq by (simp add: same)
    qed
  qed
  have par1: "has_parents task ?ys"
    by (rule row_loop_parents [OF row ok lt req subset_refl par])
  have si1: "stateIndices st1 @ [k] = filter (\<lambda>i. IsRequired task (?ys ! i)) [0..<k + 1]"
  proof -
    have "filter (\<lambda>i. IsRequired task (?ys ! i)) [0..<k + 1] =
          filter (\<lambda>i. IsRequired task (?xs ! i)) [0..<k + 1]"
      by (rule filter_cong) (auto simp: same)
    with si req tbl show ?thesis by simp
  qed
  have len1: "length (transitions st1 @ [row]) = length (stateIndices st1 @ [k])"
    using len tbl by simp
  have lens1: "\<forall>row\<in>set (transitions st1 @ [row]). length row = length (Letters task)"
    using lens tbl by simp
  have rows1: "\<forall>n<length (transitions st1 @ [row]).
        row_ok task ?ys ((stateIndices st1 @ [k]) ! n) ((transitions st1 @ [row]) ! n)"
    if dist: "distinct (map (\<lambda>e. fst (snd e)) (Letters task))"
  proof (intro allI impI)
    fix n
    assume n: "n < length (transitions st1 @ [row])"
    show "row_ok task ?ys ((stateIndices st1 @ [k]) ! n) ((transitions st1 @ [row]) ! n)"
    proof (cases "n < length (transitions st)")
      case True
      with rows dist have "row_ok task ?xs (stateIndices st ! n) (transitions st ! n)"
        by simp
      then have "row_ok task ?ys (stateIndices st ! n) (transitions st ! n)"
        unfolding new by (rule row_ok_append)
      with True len tbl show ?thesis
        by (simp add: nth_append)
    next
      case False
      with n tbl have n_eq: "n = length (transitions st)" by simp
      from row_loop_row [OF row ok dist] tbl lt1
      have "row_ok task ?ys k row"
        by (simp add: row_ok_def same)
      with n_eq len tbl show ?thesis
        by (simp add: nth_append)
    qed
  qed
  let ?st2 = "st1\<lparr>transitions := transitions st1 @ [row],
                    stateIndices := stateIndices st1 @ [k]\<rparr>"
  have sel: "states ?st2 = ?ys" "transitions ?st2 = transitions st1 @ [row]"
    "stateIndices ?st2 = stateIndices st1 @ [k]"
    by simp_all
  from ok1 lt1 sub1 closed1 par1 si1 rows1 len1 lens1 show ?thesis
    unfolding bfs_inv_def sel inv_ok_table by blast
qed

lemma bfs_loop_inv:
  "bfs_loop task k st = Ok st' \<Longrightarrow> bfs_inv task k st \<Longrightarrow>
   bfs_inv task (length (states st')) st'"
proof (induction task k st rule: bfs_loop.induct)
  case (1 task k st)
  from "1.prems"(1) show ?case
  proof (cases rule: bfs_loop_cases)
    case stop
    with "1.prems"(2) have "k = length (states st)"
      by (simp add: bfs_inv_def)
    with stop "1.prems"(2) show ?thesis by simp
  next
    case skip
    from "1.IH"(1) [OF skip(1) _ skip(3)] skip(2) bfs_inv_skip [OF "1.prems"(2) skip(1,2)]
    show ?thesis by simp
  next
    case (row st1 row)
    from "1.IH"(2) [OF row(1) _ row(3) refl row(4)] row(2)
      bfs_inv_row [OF "1.prems"(2) row(1,2,3)]
    show ?thesis by simp
  qed
qed

lemma bfs_loop_budget:
  "bfs_loop task k st = Ok st' \<Longrightarrow>
   maxSize st' + length (states st') = maxSize st + length (states st)"
proof (induction task k st rule: bfs_loop.induct)
  case (1 task k st)
  from "1.prems"(1) show ?case
  proof (cases rule: bfs_loop_cases)
    case stop
    then show ?thesis by simp
  next
    case skip
    from "1.IH"(1) [OF skip(1) _ skip(3)] skip(2) show ?thesis by simp
  next
    case (row st1 row)
    from "1.IH"(2) [OF row(1) _ row(3) refl row(4)] row(2) row_loop_budget [OF row(3)]
    show ?thesis by simp
  qed
qed

lemma bfs_loop_no_fail:
  "bfs_inv task k st \<Longrightarrow> \<forall>e\<in>set (Letters task). fst (snd e) < length (Letters task) \<Longrightarrow>
   finite (reach task) \<Longrightarrow> card (reach task) \<le> maxSize st + length (states st) \<Longrightarrow>
   \<exists>st'. bfs_loop task k st = Ok st'"
proof (induction task k st rule: bfs_loop.induct)
  case (1 task k st)
  show ?case
  proof (cases "k < length (states st)")
    case False
    then show ?thesis
      by (simp add: bfs_loop.simps [of task k st])
  next
    case lt: True
    show ?thesis
    proof (cases "IsRequired task (states st ! k)")
      case False
      from "1.IH"(1) [OF lt _ bfs_inv_skip [OF "1.prems"(1) lt False] "1.prems"(2,3,4)] False lt
      show ?thesis
        by (simp add: bfs_loop.simps [of task k st])
    next
      case req: True
      from "1.prems"(1) have ok: "inv_ok st" and sub: "set (states st) \<subseteq> reach task"
        unfolding bfs_inv_def by blast+
      from lt sub have "states st ! k \<in> reach task" by auto
      with req have nxt: "\<forall>e\<in>set (Letters task). Next task (states st ! k) (fst e) \<in> reach task"
        by (auto intro: reach.step)
      from row_loop_no_fail [OF ok _ "1.prems"(3) sub nxt "1.prems"(4),
          of "replicate (length (Letters task)) 0"] "1.prems"(2)
      obtain st1 row where row: "row_loop task (states st ! k) (Letters task) st
          (replicate (length (Letters task)) 0) = Ok (st1, row)"
        by auto
      from "1.IH"(2) [OF lt _ row refl bfs_inv_row [OF "1.prems"(1) lt req row] "1.prems"(2,3)]
        req "1.prems"(4) row_loop_budget [OF row]
      obtain st' where "bfs_loop task (k + 1)
          (st1\<lparr>transitions := transitions st1 @ [row], stateIndices := stateIndices st1 @ [k]\<rparr>)
          = Ok st'"
        by auto
      with lt req row show ?thesis
        by (simp add: bfs_loop.simps [of task k st])
    qed
  qed
qed

lemma bfs_loop_Fault:
  "\<forall>e\<in>set (Letters task). fst (snd e) < length (Letters task) \<Longrightarrow>
   bfs_loop task k st \<noteq> Fault"
proof (induction task k st rule: bfs_loop.induct)
  case (1 task k st)
  have no: "row_loop task (states st ! k) (Letters task) st
      (replicate (length (Letters task)) 0) \<noteq> Fault"
    by (rule row_loop_Fault) (use "1.prems" in simp)
  show ?case
  proof (cases "bfs_loop task k st")
    case Fault
    then show ?thesis
      using no "1.IH" "1.prems"
      by (auto simp: bfs_loop.simps [of task k st] split: if_splits step.splits)
  qed simp_all
qed

lemma bfs_loop_reach:
  assumes run: "bfs_loop task 0 (start task m) = Ok st"
  shows "set (states st) = reach task" and "distinct (states st)"
    and "length (states st) \<le> m + 1"
proof -
  note inv = bfs_loop_inv [OF run bfs_inv_start]
  from inv show "distinct (states st)"
    by (simp add: bfs_inv_def inv_ok_distinct)
  from bfs_loop_budget [OF run] show "length (states st) \<le> m + 1"
    by (simp add: start_def)
  from bfs_loop_states_append [OF run] have init: "Initial task \<in> set (states st)"
    by (auto simp: start_def)
  have "s \<in> set (states st)" if "s \<in> reach task" for s
    using that
  proof induction
    case initial
    show ?case by (rule init)
  next
    case (step s e)
    from step.IH obtain i where "i < length (states st)" "states st ! i = s"
      by (auto simp: in_set_conv_nth)
    with inv step.hyps(2,3) show ?case
      unfolding bfs_inv_def by blast
  qed
  with inv show "set (states st) = reach task"
    unfolding bfs_inv_def by blast
qed

text \<open>
  Claim C1. With class indices inside the table, \<^verbatim>\<open>Determine(task, maxSize)\<close> returns
  \<^verbatim>\<open>Failure()\<close> exactly when the states to insert beyond the initial one are more
  than \<open>maxSize\<close>: the set of states that the drive has to enumerate is infinite or has
  more than \<open>maxSize + 1\<close> elements. On that path no sink is called.
\<close>

theorem Determine_Failure_iff:
  assumes "\<forall>e\<in>set (Letters task). fst (snd e) < length (Letters task)"
  shows "(Determine task maxSize0 = Inr (Failure, []) \<longleftrightarrow>
            \<not> (finite (reach task) \<and> card (reach task) \<le> maxSize0 + 1)) \<and>
         (\<forall>tr. Determine task maxSize0 = Inr (Failure, tr) \<longrightarrow> tr = [])"
proof (intro conjI allI impI iffI)
  fix tr
  assume "Determine task maxSize0 = Inr (Failure, tr)"
  then show "tr = []"
    by (auto simp: Determine_def split: step.splits option.splits)
next
  assume fail: "Determine task maxSize0 = Inr (Failure, [])"
  show "\<not> (finite (reach task) \<and> card (reach task) \<le> maxSize0 + 1)"
  proof
    assume "finite (reach task) \<and> card (reach task) \<le> maxSize0 + 1"
    with bfs_loop_no_fail [OF bfs_inv_start assms, of maxSize0]
    obtain st where "bfs_loop task 0 (start task maxSize0) = Ok st"
      by (auto simp: start_def)
    with fail show False
      by (auto simp: Determine_def start_def split: option.splits)
  qed
next
  assume many: "\<not> (finite (reach task) \<and> card (reach task) \<le> maxSize0 + 1)"
  show "Determine task maxSize0 = Inr (Failure, [])"
  proof (cases "bfs_loop task 0 (start task maxSize0)")
    case (Ok st)
    from bfs_loop_reach [OF Ok] have "finite (reach task)"
      and "card (reach task) \<le> maxSize0 + 1"
      by (metis List.finite_set, metis distinct_card)
    with many show ?thesis by simp
  next
    case Fail
    then show ?thesis
      by (simp add: Determine_def start_def)
  next
    case Fault
    with bfs_loop_Fault [OF assms] show ?thesis by simp
  qed
qed

theorem Determine_Failure_iff_witness:
  "list_all (\<lambda>e. fst (snd e) < length (Letters chain_task)) (Letters chain_task) \<and>
   Determine chain_task 1 = Inr (Failure, []) \<and>
   \<not> (finite (reach chain_task) \<and> card (reach chain_task) \<le> 1 + 1)"
proof -
  have inr: "\<forall>e\<in>set (Letters chain_task). fst (snd e) < length (Letters chain_task)"
    by (simp add: chain_task_def)
  have run: "Determine chain_task 1 = Inr (Failure, [])"
    by code_simp
  from Determine_Failure_iff [OF inr, of 1] run inr show ?thesis
    by (simp add: list_all_iff)
qed

text \<open>
  Claim C10. In a successful drive the vector given to \<^verbatim>\<open>AcceptStates\<close> has no state
  twice, and it holds exactly the states the drive has to enumerate: the indices of the
  vector are in bijection with them.
\<close>

theorem Determine_states_distinct:
  assumes "Determine task maxSize0 = Inr (Success, tr)"
  shows "\<exists>sts rest. tr = AcceptStates sts # rest \<and> distinct sts \<and> set sts = reach task \<and>
           bij_betw (\<lambda>i. sts ! i) {..<length sts} (reach task)"
proof -
  from assms obtain st invletters where
    run: "bfs_loop task 0 (start task maxSize0) = Ok st"
    and tr: "tr = AcceptStates (states st) #
               connect_all (stateIndices st) (transitions st) invletters"
    unfolding Determine_Success by blast
  note r = bfs_loop_reach [OF run]
  from r(2) have "bij_betw (\<lambda>i. states st ! i) {..<length (states st)} (set (states st))"
    by (rule bij_betw_nth) simp_all
  with r tr show ?thesis by auto
qed

theorem Determine_states_distinct_witness:
  "Determine cycle_task 2 =
     Inr (Success, [AcceptStates [0, 1, 2], Connect 0 1 97, Connect 0 0 98,
        Connect 1 2 97, Connect 1 1 98, Connect 2 0 97, Connect 2 2 98]) \<and>
   (\<exists>sts rest. [AcceptStates [0, 1, 2], Connect 0 1 97, Connect 0 0 98,
        Connect 1 2 97, Connect 1 1 98, Connect 2 0 97, Connect 2 2 98] = AcceptStates sts # rest \<and>
      distinct sts \<and> set sts = reach cycle_task \<and>
      bij_betw (\<lambda>i. sts ! i) {..<length sts} (reach cycle_task))"
proof -
  have run: "Determine cycle_task 2 =
     Inr (Success, [AcceptStates [0, 1, 2], Connect 0 1 97, Connect 0 0 98,
        Connect 1 2 97, Connect 1 1 98, Connect 2 0 97, Connect 2 2 98])"
    by code_simp
  from Determine_states_distinct [OF run] run show ?thesis
    by simp
qed

lemma fill_invletters_Some:
  "fill_invletters ls v = Some v' \<Longrightarrow>
   length v' = length v \<and> (\<forall>e\<in>set ls. fst (snd e) < length v) \<and>
   (distinct (map (\<lambda>e. fst (snd e)) ls) \<longrightarrow> (\<forall>e\<in>set ls. v' ! fst (snd e) = fst e)) \<and>
   (\<forall>c. c \<notin> (\<lambda>e. fst (snd e)) ` set ls \<longrightarrow> v' ! c = v ! c)"
proof (induction ls arbitrary: v)
  case Nil
  then show ?case by simp
next
  case (Cons e ls)
  obtain rep idx members where e: "e = (rep, idx, members)"
    by (cases e) auto
  from Cons.prems e have idx: "idx < length v"
    and rest: "fill_invletters ls (v[idx := rep]) = Some v'"
    by (auto split: if_splits)
  from Cons.IH [OF rest] idx show ?case
    by (auto simp: e)
qed

text \<open>Distinct class indices below the number of classes are all of \<open>0..<K\<close>.\<close>

lemma dense_indices:
  assumes "distinct (map (\<lambda>e. fst (snd e)) ls)"
    and "\<forall>e\<in>set ls. fst (snd e) < length ls" and "c < length ls"
  shows "\<exists>e\<in>set ls. fst (snd e) = c"
proof -
  let ?A = "set (map (\<lambda>e. fst (snd e)) ls)"
  from assms(1) have "card ?A = length ls"
    by (metis distinct_card length_map)
  moreover from assms(2) have "?A \<subseteq> {..<length ls}"
    by auto
  ultimately have "?A = {..<length ls}"
    by (intro card_subset_eq) simp_all
  with assms(3) have "c \<in> ?A" by simp
  then show ?thesis by auto
qed

lemma zip_nth_map:
  "length xs = length ys \<Longrightarrow> zip xs ys = map (\<lambda>c. (xs ! c, ys ! c)) [0..<length xs]"
  by (rule nth_equalityI) simp_all

lemma map_nth_upt: "map (\<lambda>n. f (xs ! n)) [0..<length xs] = map f xs"
  by (rule nth_equalityI) simp_all

lemma connect_row_nth:
  "length row = length invletters \<Longrightarrow>
   connect_row i row invletters =
     map (\<lambda>c. Connect i (row ! c) (invletters ! c)) [0..<length row]"
  by (simp add: connect_row_def zip_nth_map)

text \<open>The sink calls of a successful drive, with what the drive knows at its end.\<close>

lemma Determine_Success_run:
  assumes "Determine task m = Inr (Success, tr)"
  obtains st invletters where
    "bfs_loop task 0 (start task m) = Ok st"
    "bfs_inv task (length (states st)) st"
    "fill_invletters (Letters task) (replicate (length (Letters task)) 0) = Some invletters"
    "length invletters = length (Letters task)"
    "tr = AcceptStates (states st) #
       concat (map (\<lambda>n. map (\<lambda>c. Connect (stateIndices st ! n) (transitions st ! n ! c)
                                     (invletters ! c)) [0..<length (Letters task)])
                 [0..<length (transitions st)])"
proof -
  from assms obtain st invletters where
    run: "bfs_loop task 0 (start task m) = Ok st"
    and inv: "fill_invletters (Letters task) (replicate (length (Letters task)) 0) = Some invletters"
    and tr: "tr = AcceptStates (states st) #
               connect_all (stateIndices st) (transitions st) invletters"
    unfolding Determine_Success by blast
  note binv = bfs_loop_inv [OF run bfs_inv_start]
  from fill_invletters_Some [OF inv] have len: "length invletters = length (Letters task)"
    by simp
  from binv have lens: "\<forall>row\<in>set (transitions st). length row = length (Letters task)"
    unfolding bfs_inv_def by blast
  have "connect_all (stateIndices st) (transitions st) invletters =
      concat (map (\<lambda>n. map (\<lambda>c. Connect (stateIndices st ! n) (transitions st ! n ! c)
                                     (invletters ! c)) [0..<length (Letters task)])
                 [0..<length (transitions st)])"
    unfolding connect_all_def
    by (rule arg_cong [where f = concat], rule map_cong [OF refl])
      (use lens len in \<open>simp add: connect_row_nth\<close>)
  with tr show ?thesis
    using that [OF run binv inv len] by simp
qed

text \<open>
  Claim C9. The first argument of the \<^verbatim>\<open>Connect\<close> calls of a row is the index in the
  \<^verbatim>\<open>AcceptStates\<close> vector of the state the row belongs to, not the position of the
  row in the table: listed in order, the first arguments are the indices of the required
  states in ascending order, each \<open>K\<close> times. A state that is not required keeps its place
  in the vector and is the source of no \<^verbatim>\<open>Connect\<close> call.
\<close>

theorem Determine_from_index:
  assumes "Determine task maxSize0 = Inr (Success, tr)"
  shows "\<exists>sts rest. tr = AcceptStates sts # rest \<and> set sts = reach task \<and>
           map from_index rest =
             concat (map (\<lambda>i. replicate (length (Letters task)) (Some i))
                       (filter (\<lambda>i. IsRequired task (sts ! i)) [0..<length sts])) \<and>
           (\<forall>i j l. Connect i j l \<in> set rest \<longrightarrow> i < length sts \<and> IsRequired task (sts ! i))"
proof -
  from assms obtain st invletters where
    run: "bfs_loop task 0 (start task maxSize0) = Ok st"
    and binv: "bfs_inv task (length (states st)) st"
    and tr: "tr = AcceptStates (states st) #
       concat (map (\<lambda>n. map (\<lambda>c. Connect (stateIndices st ! n) (transitions st ! n ! c)
                                     (invletters ! c)) [0..<length (Letters task)])
                 [0..<length (transitions st)])"
    by (rule Determine_Success_run)
  let ?K = "length (Letters task)"
  let ?rest = "concat (map (\<lambda>n. map (\<lambda>c. Connect (stateIndices st ! n) (transitions st ! n ! c)
                                     (invletters ! c)) [0..<?K])
                 [0..<length (transitions st)])"
  let ?req = "filter (\<lambda>i. IsRequired task (states st ! i)) [0..<length (states st)]"
  from binv have si: "stateIndices st = ?req"
    and len: "length (transitions st) = length (stateIndices st)"
    unfolding bfs_inv_def by blast+
  have "map from_index ?rest =
      concat (map (\<lambda>n. replicate ?K (Some (stateIndices st ! n))) [0..<length (stateIndices st)])"
    by (simp add: map_concat comp_def len map_replicate_const)
  also have "\<dots> = concat (map (\<lambda>i. replicate ?K (Some i)) (stateIndices st))"
    using map_nth_upt [of "\<lambda>i. replicate ?K (Some i)" "stateIndices st"] by simp
  finally have froms: "map from_index ?rest = concat (map (\<lambda>i. replicate ?K (Some i)) ?req)"
    by (simp add: si)
  have src: "i < length (states st) \<and> IsRequired task (states st ! i)"
    if "Connect i j l \<in> set ?rest" for i j l
  proof -
    from that obtain n where "n < length (stateIndices st)" "i = stateIndices st ! n"
      by (auto simp: len)
    then have "i \<in> set (stateIndices st)" by simp
    then show ?thesis
      unfolding si by simp
  qed
  from tr froms src bfs_loop_reach(1) [OF run] show ?thesis
    by blast
qed

lemma Determine_Success_trace:
  assumes "Determine task m = Inr (Success, tr)"
    and dist: "distinct (map (\<lambda>e. fst (snd e)) (Letters task))"
  obtains st invletters where
    "bfs_loop task 0 (start task m) = Ok st"
    "bfs_inv task (length (states st)) st"
    "\<forall>e\<in>set (Letters task). fst (snd e) < length (Letters task) \<and>
        invletters ! fst (snd e) = fst e"
    "tr = AcceptStates (states st) #
       concat (map (\<lambda>i. map (\<lambda>c. Connect i
                  (the (invstates st (Next task (states st ! i) (invletters ! c))))
                  (invletters ! c)) [0..<length (Letters task)])
                 (filter (\<lambda>i. IsRequired task (states st ! i)) [0..<length (states st)]))"
proof -
  from assms(1) obtain st invletters where
    run: "bfs_loop task 0 (start task m) = Ok st"
    and binv: "bfs_inv task (length (states st)) st"
    and fill: "fill_invletters (Letters task) (replicate (length (Letters task)) 0) = Some invletters"
    and tr: "tr = AcceptStates (states st) #
       concat (map (\<lambda>n. map (\<lambda>c. Connect (stateIndices st ! n) (transitions st ! n ! c)
                                     (invletters ! c)) [0..<length (Letters task)])
                 [0..<length (transitions st)])"
    by (rule Determine_Success_run)
  let ?K = "length (Letters task)"
  let ?tgt = "\<lambda>i c. the (invstates st (Next task (states st ! i) (invletters ! c)))"
  let ?G = "\<lambda>i. map (\<lambda>c. Connect i (?tgt i c) (invletters ! c)) [0..<?K]"
  from binv have ok: "inv_ok st"
    and si: "stateIndices st = filter (\<lambda>i. IsRequired task (states st ! i)) [0..<length (states st)]"
    and len: "length (transitions st) = length (stateIndices st)"
    and rows: "\<forall>n<length (transitions st).
           row_ok task (states st) (stateIndices st ! n) (transitions st ! n)"
    unfolding bfs_inv_def using dist by blast+
  from fill_invletters_Some [OF fill] dist
  have letters: "\<forall>e\<in>set (Letters task). fst (snd e) < ?K \<and> invletters ! fst (snd e) = fst e"
    by simp
  have cell: "transitions st ! n ! c = ?tgt (stateIndices st ! n) c"
    if n: "n < length (transitions st)" and c: "c < ?K" for n c
  proof -
    from letters have "\<forall>e\<in>set (Letters task). fst (snd e) < ?K" by blast
    from dense_indices [OF dist this c] obtain e where
      e: "e \<in> set (Letters task)" "fst (snd e) = c"
      by blast
    with letters have l: "invletters ! c = fst e" by auto
    from rows n e
    have "transitions st ! n ! c < length (states st) \<and>
          states st ! (transitions st ! n ! c) = Next task (states st ! (stateIndices st ! n)) (fst e)"
      unfolding row_ok_def by blast
    with ok have "invstates st (Next task (states st ! (stateIndices st ! n)) (fst e))
          = Some (transitions st ! n ! c)"
      unfolding inv_ok_def by blast
    with l show ?thesis by simp
  qed
  have "concat (map (\<lambda>n. map (\<lambda>c. Connect (stateIndices st ! n) (transitions st ! n ! c)
                                     (invletters ! c)) [0..<?K])
                 [0..<length (transitions st)]) =
        concat (map (\<lambda>n. ?G (stateIndices st ! n)) [0..<length (stateIndices st)])"
    unfolding len [symmetric]
    by (rule arg_cong [where f = concat], rule map_cong [OF refl], rule map_cong [OF refl])
      (simp add: cell)
  also have "\<dots> = concat (map ?G (stateIndices st))"
    by (rule arg_cong [where f = concat]) (rule map_nth_upt [of ?G "stateIndices st"])
  finally show ?thesis
    using that [OF run binv letters] tr si by simp
qed

theorem Determine_from_index_witness:
  "Determine gap_task 5 =
     Inr (Success, [AcceptStates [0, 1, 2], Connect 0 2 98, Connect 0 1 97,
        Connect 2 2 98, Connect 2 0 97]) \<and>
   \<not> IsRequired gap_task ([0, 1, 2] ! 1) \<and>
   (\<exists>sts rest. [AcceptStates [0, 1, 2], Connect 0 2 98, Connect 0 1 97,
        Connect 2 2 98, Connect 2 0 97] = AcceptStates sts # rest \<and>
      set sts = reach gap_task \<and>
      map from_index rest =
        concat (map (\<lambda>i. replicate (length (Letters gap_task)) (Some i))
                  (filter (\<lambda>i. IsRequired gap_task (sts ! i)) [0..<length sts])) \<and>
      (\<forall>i j l. Connect i j l \<in> set rest \<longrightarrow> i < length sts \<and> IsRequired gap_task (sts ! i)))"
proof -
  have run: "Determine gap_task 5 =
     Inr (Success, [AcceptStates [0, 1, 2], Connect 0 2 98, Connect 0 1 97,
        Connect 2 2 98, Connect 2 0 97])"
    by code_simp
  from Determine_from_index [OF run] run show ?thesis
    by (simp add: gap_task_def)
qed

text \<open>
  Claim C3. In a successful drive whose letter classes have distinct indices, the first
  sink call is the one \<^verbatim>\<open>AcceptStates\<close> call, and the \<^verbatim>\<open>Connect\<close> calls follow it: for
  every required state, in the order of the indices of the vector, \<open>K\<close> calls with that
  state as source, one for each class index in ascending order, carrying the
  representative of the class. No other call is made, so no state that is not required
  is a source.
\<close>

theorem Determine_sink_order:
  assumes "Determine task maxSize0 = Inr (Success, tr)"
    and "distinct (map (\<lambda>e. fst (snd e)) (Letters task))"
  shows "\<exists>sts tgt rep.
     tr = AcceptStates sts #
          concat (map (\<lambda>i. map (\<lambda>c. Connect i (tgt i c) (rep c)) [0..<length (Letters task)])
                    (filter (\<lambda>i. IsRequired task (sts ! i)) [0..<length sts])) \<and>
     (\<forall>e\<in>set (Letters task). fst (snd e) < length (Letters task) \<and> rep (fst (snd e)) = fst e)"
proof -
  from assms obtain st invletters where
    "bfs_loop task 0 (start task maxSize0) = Ok st"
    and "bfs_inv task (length (states st)) st"
    and letters: "\<forall>e\<in>set (Letters task). fst (snd e) < length (Letters task) \<and>
        invletters ! fst (snd e) = fst e"
    and tr: "tr = AcceptStates (states st) #
       concat (map (\<lambda>i. map (\<lambda>c. Connect i
                  (the (invstates st (Next task (states st ! i) (invletters ! c))))
                  (invletters ! c)) [0..<length (Letters task)])
                 (filter (\<lambda>i. IsRequired task (states st ! i)) [0..<length (states st)]))"
    by (rule Determine_Success_trace)
  show ?thesis
    by (rule exI [of _ "states st"],
        rule exI [of _ "\<lambda>i c. the (invstates st (Next task (states st ! i) (invletters ! c)))"],
        rule exI [of _ "\<lambda>c. invletters ! c"])
      (use letters tr in simp)
qed

theorem Determine_sink_order_witness:
  "Determine cycle_task 2 =
     Inr (Success, [AcceptStates [0, 1, 2], Connect 0 1 97, Connect 0 0 98,
        Connect 1 2 97, Connect 1 1 98, Connect 2 0 97, Connect 2 2 98]) \<and>
   distinct (map (\<lambda>e. fst (snd e)) (Letters cycle_task)) \<and>
   (\<exists>sts tgt rep.
     [AcceptStates [0, 1, 2], Connect 0 1 97, Connect 0 0 98,
        Connect 1 2 97, Connect 1 1 98, Connect 2 0 97, Connect 2 2 98] =
       AcceptStates sts #
          concat (map (\<lambda>i. map (\<lambda>c. Connect i (tgt i c) (rep c)) [0..<length (Letters cycle_task)])
                    (filter (\<lambda>i. IsRequired cycle_task (sts ! i)) [0..<length sts])) \<and>
     (\<forall>e\<in>set (Letters cycle_task).
        fst (snd e) < length (Letters cycle_task) \<and> rep (fst (snd e)) = fst e))"
proof -
  have run: "Determine cycle_task 2 =
     Inr (Success, [AcceptStates [0, 1, 2], Connect 0 1 97, Connect 0 0 98,
        Connect 1 2 97, Connect 1 1 98, Connect 2 0 97, Connect 2 2 98])"
    by code_simp
  have dist: "distinct (map (\<lambda>e. fst (snd e)) (Letters cycle_task))"
    by (simp add: cycle_task_def)
  from Determine_sink_order [OF run dist] run dist show ?thesis
    by simp
qed

text \<open>
  Claim C6. In a successful drive whose letter classes have distinct indices, the target
  of every \<^verbatim>\<open>Connect\<close> call is an index of the \<^verbatim>\<open>AcceptStates\<close> vector (and the state
  there is the successor of the source under the letter of the call), and every index of
  the vector is reached from index \<open>0\<close> along the edges that the \<^verbatim>\<open>Connect\<close> calls give.
\<close>

theorem Determine_reachability:
  fixes task :: "'s DetermineTask"
  assumes "Determine task maxSize0 = Inr (Success, tr)"
    and "distinct (map (\<lambda>e. fst (snd e)) (Letters task))"
  shows "\<exists>sts rest. tr = AcceptStates sts # rest \<and>
     (\<forall>i j l. Connect i j l \<in> set rest \<longrightarrow> j < length sts \<and> sts ! j = Next task (sts ! i) l) \<and>
     (\<forall>k<length sts. (0, k) \<in> {(i, j). \<exists>l. Connect i j l \<in> set rest}\<^sup>*)"
proof -
  from assms obtain st invletters where
    "bfs_loop task 0 (start task maxSize0) = Ok st"
    and binv: "bfs_inv task (length (states st)) st"
    and letters: "\<forall>e\<in>set (Letters task). fst (snd e) < length (Letters task) \<and>
        invletters ! fst (snd e) = fst e"
    and tr: "tr = AcceptStates (states st) #
       concat (map (\<lambda>i. map (\<lambda>c. Connect i
                  (the (invstates st (Next task (states st ! i) (invletters ! c))))
                  (invletters ! c)) [0..<length (Letters task)])
                 (filter (\<lambda>i. IsRequired task (states st ! i)) [0..<length (states st)]))"
    by (rule Determine_Success_trace)
  let ?K = "length (Letters task)" and ?sts = "states st"
  let ?tgt = "\<lambda>i c. the (invstates st (Next task (?sts ! i) (invletters ! c)))"
  let ?rest = "concat (map (\<lambda>i. map (\<lambda>c. Connect i (?tgt i c) (invletters ! c)) [0..<?K])
                 (filter (\<lambda>i. IsRequired task (?sts ! i)) [0..<length ?sts])) :: 's sink_call list"
  let ?E = "{(i, j). \<exists>l. Connect i j l \<in> set ?rest}"
  from binv have ok: "inv_ok st"
    and closed: "\<forall>i<length ?sts. IsRequired task (?sts ! i) \<longrightarrow>
        (\<forall>e\<in>set (Letters task). Next task (?sts ! i) (fst e) \<in> set ?sts)"
    and par: "has_parents task ?sts"
    unfolding bfs_inv_def by blast+
  have mem: "Connect i j l \<in> set ?rest \<longleftrightarrow>
      i < length ?sts \<and> IsRequired task (?sts ! i) \<and>
      (\<exists>c<?K. j = ?tgt i c \<and> l = invletters ! c)" for i j l
    by auto
  have pos: "invstates st (Next task (?sts ! i) (fst e)) = Some j \<longleftrightarrow>
      j < length ?sts \<and> ?sts ! j = Next task (?sts ! i) (fst e)" for i j e
    using ok unfolding inv_ok_def by blast
  have target: "j < length ?sts \<and> ?sts ! j = Next task (?sts ! i) l"
    if "Connect i j l \<in> set ?rest" for i j l
  proof -
    from that obtain c where i: "i < length ?sts" "IsRequired task (?sts ! i)"
      and c: "c < ?K" "j = ?tgt i c" "l = invletters ! c"
      unfolding mem by blast
    from letters have "\<forall>e\<in>set (Letters task). fst (snd e) < ?K" by blast
    from dense_indices [OF assms(2) this c(1)] obtain e where
      e: "e \<in> set (Letters task)" "fst (snd e) = c"
      by blast
    with letters c have l: "l = fst e" by auto
    from closed i e have "Next task (?sts ! i) (fst e) \<in> set ?sts" by blast
    then obtain j' where j': "j' < length ?sts" "?sts ! j' = Next task (?sts ! i) (fst e)"
      by (auto simp: in_set_conv_nth)
    then have "invstates st (Next task (?sts ! i) (fst e)) = Some j'"
      unfolding pos by simp
    with c(2,3) l j' show ?thesis
      by simp
  qed
  have edge: "\<exists>i<k. (i, k) \<in> ?E" if k: "0 < k" "k < length ?sts" for k
  proof -
    from par k obtain i e where i: "i < k" "IsRequired task (?sts ! i)"
      and e: "e \<in> set (Letters task)" "Next task (?sts ! i) (fst e) = ?sts ! k"
      unfolding has_parents_def by blast
    from k e(2) have "invstates st (Next task (?sts ! i) (fst e)) = Some k"
      unfolding pos by simp
    with letters e(1) have "?tgt i (fst (snd e)) = k" "invletters ! fst (snd e) = fst e"
      "fst (snd e) < ?K"
      by auto
    with i k have "Connect i k (fst e) \<in> set ?rest"
      unfolding mem by (metis less_trans)
    with i(1) show ?thesis by blast
  qed
  have reachable: "(0, k) \<in> ?E\<^sup>*" if "k < length ?sts" for k
    using that
  proof (induction k rule: less_induct)
    case (less k)
    show ?case
    proof (cases "k = 0")
      case True
      then show ?thesis by simp
    next
      case False
      with edge [of k] less.prems obtain i where i: "i < k" "(i, k) \<in> ?E"
        by auto
      with less.IH [of i] less.prems have "(0, i) \<in> ?E\<^sup>*"
        by simp
      then show ?thesis
        using i(2) by (rule rtrancl_into_rtrancl)
    qed
  qed
  from tr target reachable show ?thesis
    by blast
qed

theorem Determine_reachability_witness:
  "Determine gap_task 2 =
     Inr (Success, [AcceptStates [0, 1, 2], Connect 0 2 98, Connect 0 1 97,
        Connect 2 2 98, Connect 2 0 97]) \<and>
   distinct (map (\<lambda>e. fst (snd e)) (Letters gap_task)) \<and>
   (\<exists>sts rest. [AcceptStates [0, 1, 2], Connect 0 2 98, Connect 0 1 97,
        Connect 2 2 98, Connect 2 0 97] = AcceptStates sts # rest \<and>
     (\<forall>i j l. Connect i j l \<in> set rest \<longrightarrow>
        j < length sts \<and> sts ! j = Next gap_task (sts ! i) l) \<and>
     (\<forall>k<length sts. (0, k) \<in> {(i, j). \<exists>l. Connect i j l \<in> set rest}\<^sup>*))"
proof -
  have run: "Determine gap_task 2 =
     Inr (Success, [AcceptStates [0, 1, 2], Connect 0 2 98, Connect 0 1 97,
        Connect 2 2 98, Connect 2 0 97])"
    by code_simp
  have dist: "distinct (map (\<lambda>e. fst (snd e)) (Letters gap_task))"
    by (simp add: gap_task_def)
  from Determine_reachability [OF run dist] run dist show ?thesis
    by simp
qed

section \<open>Properties of the minimization drive\<close>

text \<open>
  Claim C5. When \<^verbatim>\<open>task.IsDetermined()\<close> is false, \<^verbatim>\<open>Minimize(task)\<close> returns
  \<^verbatim>\<open>task.Failure()\<close> and calls no sink, whatever the rest of the task is: the witness is
  a task with no state, on which the assertion of \<^verbatim>\<open>UpdateStateClassMap\<close> would fail if
  control went as far as the refinement loop.
\<close>

theorem Minimize_not_determined:
  assumes "\<not> IsDetermined task"
  shows "Minimize MaxChar task = Inr (Failure, [])"
  using assms by (simp add: Minimize_def)

theorem Minimize_not_determined_witness:
  "\<not> IsDetermined undetermined_task \<and>
   Minimize 264 undetermined_task = Inr (Failure, []) \<and>
   Minimize 264 (undetermined_task\<lparr>IsDetermined := True\<rparr>) = Inl AssertionFailed"
proof -
  have no: "\<not> IsDetermined undetermined_task"
    by (simp add: undetermined_task_def)
  have "Minimize 264 (undetermined_task\<lparr>IsDetermined := True\<rparr>) = Inl AssertionFailed"
    by (simp add: Minimize_def Minimize_refine_def undetermined_task_def build_table_def
        fill_letters_def refine_loop.simps UpdateStateClassMap_def)
  with Minimize_not_determined [OF no, of 264] no show ?thesis
    by simp
qed

lemma refine_loop_cases:
  assumes "refine_loop MaxChar detTran dl n clMap p = Inr (n', p')"
  obtains (stop) "clMap \<noteq> []" "map (Representative p) [0..<length clMap] = clMap"
      "n' = n" "p' = p"
  | (round) "clMap \<noteq> []" "map (Representative p) [0..<length clMap] \<noteq> clMap"
      "refine_loop MaxChar detTran dl (n + 1) (map (Representative p) [0..<length clMap])
         (Split (MinimizeEquality MaxChar detTran dl
                   (Some (map (Representative p) [0..<length clMap])) None) p) = Inr (n', p')"
  using assms
  by (auto simp: refine_loop.simps [of MaxChar detTran dl n clMap p] UpdateStateClassMap_eq
      split: if_splits)

lemma refine_loop_rounds:
  "refine_loop MaxChar detTran dl n clMap p = Inr (n', p') \<Longrightarrow> n' \<le> n + slack clMap p"
proof (induction MaxChar detTran dl n clMap p rule: refine_loop.induct)
  case (1 MaxChar detTran dl n clMap p)
  from "1.prems" show ?case
  proof (cases rule: refine_loop_cases)
    case stop
    then show ?thesis by simp
  next
    case round
    let ?m = "map (Representative p) [0..<length clMap]"
    from round(1,2) have upd: "UpdateStateClassMap clMap p = Inr (True, ?m)"
      by (simp add: UpdateStateClassMap_eq)
    from "1.IH" [OF upd refl _ round(3)]
      slack_Split [OF round(2), of "MinimizeEquality MaxChar detTran dl (Some ?m) None"]
    show ?thesis by simp
  qed
qed

lemma refine_loop_partition:
  "refine_loop MaxChar detTran dl n clMap p = Inr (n', p') \<Longrightarrow>
   mset (concat p') = mset (concat p) \<and> ([] \<notin> set p \<longrightarrow> [] \<notin> set p')"
proof (induction MaxChar detTran dl n clMap p rule: refine_loop.induct)
  case (1 MaxChar detTran dl n clMap p)
  from "1.prems" show ?case
  proof (cases rule: refine_loop_cases)
    case stop
    then show ?thesis by simp
  next
    case round
    let ?m = "map (Representative p) [0..<length clMap]"
    from round(1,2) have upd: "UpdateStateClassMap clMap p = Inr (True, ?m)"
      by (simp add: UpdateStateClassMap_eq)
    from "1.IH" [OF upd refl _ round(3)] show ?thesis
      by (simp add: Split_mset Split_nonempty)
  qed
qed

lemma refine_loop_total:
  "clMap \<noteq> [] \<Longrightarrow> \<exists>r. refine_loop MaxChar detTran dl n clMap p = Inr r"
proof (induction MaxChar detTran dl n clMap p rule: refine_loop.induct)
  case (1 MaxChar detTran dl n clMap p)
  let ?m = "map (Representative p) [0..<length clMap]"
  show ?case
  proof (cases "?m = clMap")
    case True
    with "1.prems" show ?thesis
      by (simp add: refine_loop.simps [of MaxChar detTran dl n clMap p] UpdateStateClassMap_eq)
  next
    case False
    with "1.prems" have upd: "UpdateStateClassMap clMap p = Inr (True, ?m)"
      by (simp add: UpdateStateClassMap_eq)
    from "1.prems" have "?m \<noteq> []" by simp
    from "1.IH" [OF upd refl _ this] upd show ?thesis
      by (simp add: refine_loop.simps [of MaxChar detTran dl n clMap p])
  qed
qed

lemma Split_refines:
  assumes "c' \<in> set (Split eq p)"
  shows "\<exists>c\<in>set p. set c' \<subseteq> set c"
proof -
  from assms obtain c where c: "c \<in> set p" "c' \<in> set (fold (Append eq) c [])"
    by (auto simp: Split_def)
  from c(2) have "set c' \<subseteq> set (concat (fold (Append eq) c []))"
    by auto
  also have "\<dots> = set c"
    using fold_Append_mset [of eq c "[]"] by (metis add.right_neutral concat.simps(1) mset.simps(1) set_mset_mset)
  finally show ?thesis
    using c(1) by blast
qed

lemma Split_same_or_more:
  assumes "[] \<notin> set p"
  shows "Split eq p = p \<or> length p < length (Split eq p)"
proof -
  from assms have f: "filter (\<lambda>c. c \<noteq> []) p = p"
    by (auto simp: filter_id_conv)
  from Split_length [of p eq]
  have "length (Split eq p) \<le> length p \<longrightarrow> Split eq p = p"
    unfolding f by blast
  then show ?thesis
    using not_le by blast
qed

lemma Minimize_refine_unfold:
  "Minimize_refine MaxChar task =
     refine_loop MaxChar (snd (build_table MaxChar task)) (fst (build_table MaxChar task)) 0
       (replicate (Size task) 0)
       (fold (Append (MinimizeEquality MaxChar (snd (build_table MaxChar task))
                        (fst (build_table MaxChar task)) None (Some task)))
          [0..<Size task] [])"
  by (simp add: Minimize_refine_def Let_def split_beta)

text \<open>
  Claim C8. For a task within the contract that has at least one state, the refinement
  loop of \<^verbatim>\<open>Minimize\<close> ends, after at most \<open>|S|\<close> rounds, with at most \<open>|S|\<close> classes, none
  of them empty. The contract keeps every index of the table and of the class map
  inside its vector, so the loop of the model is the loop of the program. A
  round is one call of \<^verbatim>\<open>Split\<close>, and a \<^verbatim>\<open>Split\<close> of a partition with no empty class
  either leaves the partition as it is or gives one with more classes; its classes lie
  inside the classes it splits, and it keeps the members.
\<close>

theorem Minimize_refine_terminates:
  assumes contract: "task_contract MaxChar task" and pos: "0 < Size task"
  shows "(\<exists>rounds p. Minimize_refine MaxChar task = Inr (rounds, p) \<and> rounds \<le> Size task \<and>
            length p \<le> Size task \<and> [] \<notin> set p \<and>
            (IsDetermined task \<longrightarrow>
               Minimize MaxChar task = Inr (Success, [AcceptPartition p]))) \<and>
         (\<forall>eq (p :: nat Partition). [] \<notin> set p \<longrightarrow>
            (Split eq p = p \<or> length p < length (Split eq p)) \<and>
            [] \<notin> set (Split eq p) \<and>
            (\<forall>c'\<in>set (Split eq p). \<exists>c\<in>set p. set c' \<subseteq> set c) \<and>
            mset (concat (Split eq p)) = mset (concat p))"
proof (intro conjI allI impI ballI)
  let ?dl = "fst (build_table MaxChar task)" and ?tbl = "snd (build_table MaxChar task)"
  let ?p0 = "fold (Append (MinimizeEquality MaxChar ?tbl ?dl None (Some task))) [0..<Size task] []"
  let ?m0 = "replicate (Size task) (0::nat)"
  from pos have "?m0 \<noteq> []" by simp
  from refine_loop_total [OF this, of MaxChar ?tbl ?dl 0 ?p0] obtain rounds p where
    run: "refine_loop MaxChar ?tbl ?dl 0 ?m0 ?p0 = Inr (rounds, p)"
    by auto
  have ne0: "[] \<notin> set ?p0"
    by (rule fold_Append_nonempty) simp
  have n0: "length (concat ?p0) = Size task"
    using fold_Append_mset [of "MinimizeEquality MaxChar ?tbl ?dl None (Some task)" "[0..<Size task]" "[]"]
    by (metis add.right_neutral concat.simps(1) mset.simps(1) size_mset length_upt diff_zero)
  from pos have "[0..<Size task] \<noteq> []" by simp
  from regroup_length [OF this] have k0: "1 \<le> length ?p0" .
  from ne0 have "filter (\<lambda>c. c \<noteq> []) ?p0 = ?p0"
    by (auto simp: filter_id_conv)
  then have "slack ?m0 ?p0 \<le> (Size task - length ?p0) + 1"
    unfolding slack_def n0 by simp
  with k0 pos have "slack ?m0 ?p0 \<le> Size task"
    by arith
  with refine_loop_rounds [OF run] have rounds: "rounds \<le> Size task"
    by simp
  from refine_loop_partition [OF run] ne0 have ne: "[] \<notin> set p"
    and ms: "mset (concat p) = mset (concat ?p0)"
    by simp_all
  from ms n0 have "length (concat p) = Size task"
    by (metis size_mset)
  with nonempty_length_concat [OF ne] have len: "length p \<le> Size task"
    by simp
  from run have mr: "Minimize_refine MaxChar task = Inr (rounds, p)"
    by (simp add: Minimize_refine_unfold)
  then have "IsDetermined task \<longrightarrow> Minimize MaxChar task = Inr (Success, [AcceptPartition p])"
    by (simp add: Minimize_def)
  with mr rounds len ne
  show "\<exists>rounds p. Minimize_refine MaxChar task = Inr (rounds, p) \<and> rounds \<le> Size task \<and>
            length p \<le> Size task \<and> [] \<notin> set p \<and>
            (IsDetermined task \<longrightarrow>
               Minimize MaxChar task = Inr (Success, [AcceptPartition p]))"
    by blast
next
  fix eq and p :: "nat Partition"
  assume "[] \<notin> set p"
  then show "Split eq p = p \<or> length p < length (Split eq p)"
    by (rule Split_same_or_more)
next
  fix eq and p :: "nat Partition"
  show "[] \<notin> set (Split eq p)"
    by (rule Split_nonempty)
next
  fix eq and p :: "nat Partition" and c'
  assume "c' \<in> set (Split eq p)"
  then show "\<exists>c\<in>set p. set c' \<subseteq> set c"
    by (rule Split_refines)
next
  fix eq and p :: "nat Partition"
  show "mset (concat (Split eq p)) = mset (concat p)"
    by (rule Split_mset)
qed

theorem Minimize_refine_terminates_witness:
  "task_contract 1 chain4 \<and>
   0 < Size chain4 \<and>
   Minimize_refine 1 chain4 = Inr (3, [[0], [1], [2], [3]]) \<and>
   (\<exists>rounds p. Minimize_refine 1 chain4 = Inr (rounds, p) \<and> rounds \<le> Size chain4 \<and>
      length p \<le> Size chain4 \<and> [] \<notin> set p \<and>
      (IsDetermined chain4 \<longrightarrow> Minimize 1 chain4 = Inr (Success, [AcceptPartition p]))) \<and>
   Split (\<lambda>a b. a = b) [[0, 1], [2::nat]] = [[0], [1], [2]]"
proof -
  have ok: "task_contract 1 chain4"
    unfolding task_contract_def chain4_def
    by (simp add: atLeastLessThan_upt upt_rec)
  have pos: "0 < Size chain4"
    by (simp add: chain4_def)
  have run: "Minimize_refine 1 chain4 = Inr (3, [[0], [1], [2], [3]])"
    by code_simp
  have split: "Split (\<lambda>a b. a = b) [[0, 1], [2::nat]] = [[0], [1], [2]]"
    by (simp add: Split_def)
  from Minimize_refine_terminates [OF ok pos] ok pos run split show ?thesis
    by simp
qed

lemma cell_unique:
  fixes M :: nat
  assumes "l < M" and "l' < M" and "k * M + l = k' * M + l'"
  shows "k = k' \<and> l = l'"
proof -
  from assms(1) have "(k * M + l) div M = k" and "(k * M + l) mod M = l"
    by simp_all
  moreover from assms(2) have "(k' * M + l') div M = k'" and "(k' * M + l') mod M = l'"
    by simp_all
  ultimately show ?thesis
    using assms(3) by simp
qed

lemma cell_in_table:
  fixes M :: nat
  assumes "a < n" and "l < M"
  shows "a * M + l < n * M"
proof -
  from assms(2) have "a * M + l < Suc a * M" by simp
  also from assms(1) have "\<dots> \<le> n * M"
    by (intro mult_le_mono1) simp
  finally show ?thesis .
qed

lemma fill_row_nth:
  "length (fold (\<lambda>letter detTran. detTran[base + letter := v]) members detTran) = length detTran \<and>
   (p < length detTran \<longrightarrow>
    fold (\<lambda>letter detTran. detTran[base + letter := v]) members detTran ! p =
      (if \<exists>letter\<in>set members. base + letter = p then v else detTran ! p))"
proof (induction members arbitrary: detTran)
  case Nil
  show ?case by simp
next
  case (Cons l members)
  from Cons [of "detTran[base + l := v]"] show ?case
    by (auto simp: nth_list_update)
qed

lemma fill_letters_upto:
  assumes mem: "\<forall>l\<in>set members. l < MaxChar" and a: "a < Size task" and l: "l < MaxChar"
    and len: "length detTran = Size task * MaxChar" and k: "k \<le> Size task"
  shows "length (fold (\<lambda>from detTran.
             let next = Next task from representative
             in fold (\<lambda>letter detTran. detTran[from * MaxChar + letter := next]) members detTran)
           [0..<k] detTran) = length detTran \<and>
         fold (\<lambda>from detTran.
             let next = Next task from representative
             in fold (\<lambda>letter detTran. detTran[from * MaxChar + letter := next]) members detTran)
           [0..<k] detTran ! (a * MaxChar + l) =
         (if a < k \<and> l \<in> set members then Next task a representative
          else detTran ! (a * MaxChar + l))"
  using k
proof (induction k)
  case 0
  show ?case by simp
next
  case (Suc k)
  let ?f = "\<lambda>from detTran.
             let next = Next task from representative
             in fold (\<lambda>letter detTran. detTran[from * MaxChar + letter := next]) members detTran"
  let ?t = "fold ?f [0..<k] detTran"
  from Suc have IH: "length ?t = length detTran"
    "?t ! (a * MaxChar + l) =
       (if a < k \<and> l \<in> set members then Next task a representative
        else detTran ! (a * MaxChar + l))"
    by simp_all
  from cell_in_table [OF a l] len IH(1) have p: "a * MaxChar + l < length ?t"
    by simp
  have hit: "(\<exists>letter\<in>set members. k * MaxChar + letter = a * MaxChar + l) \<longleftrightarrow>
      k = a \<and> l \<in> set members"
    using mem l cell_unique [of _ MaxChar l k a] by auto
  have "fold ?f [0..<Suc k] detTran = ?f k ?t"
    by simp
  with fill_row_nth [of "k * MaxChar" "Next task k representative" members ?t "a * MaxChar + l"]
    p IH hit
  show ?case
    by (auto simp: Let_def less_Suc_eq)
qed

lemma fill_letters_nth:
  assumes "\<forall>l\<in>set members. l < MaxChar" and "a < Size task" and "l < MaxChar"
    and "length detTran = Size task * MaxChar"
  shows "length (fill_letters MaxChar task representative members detTran) = length detTran \<and>
         fill_letters MaxChar task representative members detTran ! (a * MaxChar + l) =
         (if l \<in> set members then Next task a representative else detTran ! (a * MaxChar + l))"
  using fill_letters_upto [OF assms order_refl, of representative] assms(2)
  unfolding fill_letters_def by simp

lemma build_table_fold:
  fixes ls :: LettersTbl
  assumes ok: "\<forall>e\<in>set ls. \<forall>l\<in>set (snd (snd e)). l < MaxChar \<and>
                 (\<forall>s\<in>{0..<Size task}. Next task s l = Next task s (fst e))"
    and a: "a < Size task" and l: "l < MaxChar"
    and len: "length detTran = Size task * MaxChar"
  shows "fst (fold (\<lambda>(representative, idx, members) (distinctLetters, detTran).
             (distinctLetters @ [representative],
              fill_letters MaxChar task representative members detTran))
           ls (dl, detTran)) = dl @ map fst ls \<and>
         snd (fold (\<lambda>(representative, idx, members) (distinctLetters, detTran).
             (distinctLetters @ [representative],
              fill_letters MaxChar task representative members detTran))
           ls (dl, detTran)) ! (a * MaxChar + l) =
         (if \<exists>e\<in>set ls. l \<in> set (snd (snd e)) then Next task a l
          else detTran ! (a * MaxChar + l))"
  using ok len
proof (induction ls arbitrary: dl detTran)
  case Nil
  show ?case by simp
next
  case (Cons e ls)
  obtain rep idx members where e: "e = (rep, idx, members)"
    by (cases e) auto
  from Cons.prems(1) e have mem: "\<forall>l\<in>set members. l < MaxChar"
    and same: "l \<in> set members \<Longrightarrow> Next task a l = Next task a rep"
    using a by auto
  note fill = fill_letters_nth [OF mem a l Cons.prems(2), of rep]
  from Cons.prems(1) have "\<forall>e\<in>set ls. \<forall>l\<in>set (snd (snd e)). l < MaxChar \<and>
                 (\<forall>s\<in>{0..<Size task}. Next task s l = Next task s (fst e))"
    by simp
  from Cons.IH [OF this, of "fill_letters MaxChar task rep members detTran" "dl @ [rep]"]
    fill Cons.prems(2) same
  show ?case
    by (auto simp: e)
qed

lemma build_table_letters:
  "fst (build_table MaxChar task) = map fst (Letters task)"
proof -
  have "fst (fold (\<lambda>(representative, idx, members) (distinctLetters, detTran).
             (distinctLetters @ [representative],
              fill_letters MaxChar task representative members detTran))
           ls (dl, detTran)) = dl @ map fst ls" for ls :: LettersTbl and dl detTran
    by (induction ls arbitrary: dl detTran) (auto simp: split_beta)
  then show ?thesis
    by (simp add: build_table_def)
qed

lemma build_table_nth:
  assumes "task_contract MaxChar task" and "a < Size task" and "e \<in> set (Letters task)"
    and "l \<in> set (snd (snd e))"
  shows "snd (build_table MaxChar task) ! (a * MaxChar + l) = Next task a l"
proof -
  from assms(1) have ok: "\<forall>e\<in>set (Letters task). \<forall>l\<in>set (snd (snd e)). l < MaxChar \<and>
                 (\<forall>s\<in>{0..<Size task}. Next task s l = Next task s (fst e))"
    unfolding task_contract_def by blast
  with assms(3,4) have l: "l < MaxChar" by blast
  from build_table_fold [OF ok assms(2) l, of "replicate (Size task * MaxChar) 0" "[]"] assms(3,4)
  show ?thesis
    unfolding build_table_def by auto
qed

lemma Append_pairwise:
  assumes refl: "\<And>a. a \<in> A \<Longrightarrow> eq a a"
    and sym: "\<And>a b. a \<in> A \<Longrightarrow> b \<in> A \<Longrightarrow> eq a b \<Longrightarrow> eq b a"
    and trans: "\<And>a b c. a \<in> A \<Longrightarrow> b \<in> A \<Longrightarrow> c \<in> A \<Longrightarrow> eq a b \<Longrightarrow> eq b c \<Longrightarrow> eq a c"
    and x: "x \<in> A"
  shows "set (concat p) \<subseteq> A \<Longrightarrow> pairwise_in eq p \<Longrightarrow> pairwise_in eq (Append eq x p)"
proof (induction p)
  case Nil
  from refl [OF x] show ?case
    by (simp add: pairwise_in_def)
next
  case (Cons c p)
  from Cons.prems have c: "set c \<subseteq> A" and p: "set (concat p) \<subseteq> A"
    and pc: "\<forall>a\<in>set c. \<forall>b\<in>set c. eq a b" and pp: "pairwise_in eq p"
    by (auto simp: pairwise_in_def)
  show ?case
  proof (cases "\<exists>y\<in>set c. eq x y")
    case True
    then obtain y where y: "y \<in> set c" "eq x y" by blast
    have xa: "eq x a \<and> eq a x" if "a \<in> set c" for a
    proof -
      from that c y have "a \<in> A" "y \<in> A" by auto
      moreover from pc y that have "eq y a" by blast
      ultimately have "eq x a"
        using trans [OF x _ _ y(2)] by blast
      with sym [OF x \<open>a \<in> A\<close>] show ?thesis by blast
    qed
    with pc pp refl [OF x] True show ?thesis
      by (auto simp: pairwise_in_def)
  next
    case False
    with Cons.IH [OF p pp] pc show ?thesis
      by (auto simp: pairwise_in_def)
  qed
qed

lemma fold_Append_pairwise:
  assumes refl: "\<And>a. a \<in> A \<Longrightarrow> eq a a"
    and sym: "\<And>a b. a \<in> A \<Longrightarrow> b \<in> A \<Longrightarrow> eq a b \<Longrightarrow> eq b a"
    and trans: "\<And>a b c. a \<in> A \<Longrightarrow> b \<in> A \<Longrightarrow> c \<in> A \<Longrightarrow> eq a b \<Longrightarrow> eq b c \<Longrightarrow> eq a c"
  shows "set xs \<subseteq> A \<Longrightarrow> set (concat q) \<subseteq> A \<Longrightarrow> pairwise_in eq q \<Longrightarrow>
         pairwise_in eq (fold (Append eq) xs q)"
proof (induction xs arbitrary: q)
  case Nil
  then show ?case by simp
next
  case (Cons x xs)
  from Cons.prems have x: "x \<in> A" and xs: "set xs \<subseteq> A" by auto
  have "set (concat (Append eq x q)) \<subseteq> A"
    using Append_mset [of eq x q] Cons.prems(2) x
    by (metis insert_subset set_mset_add_mset_insert set_mset_mset)
  moreover have "pairwise_in eq (Append eq x q)"
    by (rule Append_pairwise [OF refl sym trans x Cons.prems(2,3)])
  ultimately show ?case
    using Cons.IH [OF xs] by simp
qed

lemma Split_pairwise:
  assumes refl: "\<And>a. eq a a"
    and sym: "\<And>a b. eq a b \<Longrightarrow> eq b a"
    and trans: "\<And>a b c. eq a b \<Longrightarrow> eq b c \<Longrightarrow> eq a c"
  shows "pairwise_in eq (Split eq p)"
proof -
  have "pairwise_in eq (fold (Append eq) c [])" for c
  proof (rule fold_Append_pairwise [where A = UNIV])
    show "eq a a" for a
      by (rule refl)
    show "eq b a" if "eq a b" for a b
      using that by (rule sym)
    show "eq a c" if "eq a b" "eq b c" for a b c
      using that by (rule trans)
    show "set c \<subseteq> UNIV" and "set (concat []) \<subseteq> UNIV"
      by simp_all
    show "pairwise_in eq []"
      by (simp add: pairwise_in_def)
  qed
  then show ?thesis
    by (auto simp: pairwise_in_def Split_def)
qed

lemma MinimizeEquality_refine:
  "MinimizeEquality MaxChar detTran dl (Some prev) None a b \<longleftrightarrow>
     prev ! a = prev ! b \<and>
     (\<forall>l\<in>set dl. prev ! (detTran ! (a * MaxChar + l)) = prev ! (detTran ! (b * MaxChar + l)))"
  by (simp add: MinimizeEquality_def list_all_iff)

lemma MinimizeEquality_initial:
  "MinimizeEquality MaxChar detTran dl None (Some task) a b \<longleftrightarrow> SameClasses task a b"
  by (simp add: MinimizeEquality_def)

lemma MinimizeEquality_key:
  "MinimizeEquality MaxChar detTran dl (Some prev) None a b \<longleftrightarrow>
     (prev ! a, map (\<lambda>l. prev ! (detTran ! (a * MaxChar + l))) dl) =
     (prev ! b, map (\<lambda>l. prev ! (detTran ! (b * MaxChar + l))) dl)"
  by (simp add: MinimizeEquality_def list_all_iff)

lemma Split_refine_pairwise:
  "pairwise_in (MinimizeEquality MaxChar detTran dl (Some prev) None)
     (Split (MinimizeEquality MaxChar detTran dl (Some prev) None) p)"
proof (rule Split_pairwise)
  fix a b c
  let ?eq = "MinimizeEquality MaxChar detTran dl (Some prev) None"
  show "?eq a a"
    unfolding MinimizeEquality_key by (rule refl)
  show "?eq b a" if "?eq a b"
    using that unfolding MinimizeEquality_key by (rule sym)
  show "?eq a c" if "?eq a b" "?eq b c"
    using that unfolding MinimizeEquality_key by (rule trans)
qed

lemma partition_of_set: "partition_of n p \<Longrightarrow> set (concat p) = {0..<n}"
  unfolding partition_of_def by (metis set_mset_mset set_upt)

lemma partition_of_distinct: "partition_of n p \<Longrightarrow> distinct (concat p)"
  unfolding partition_of_def by (metis distinct_upt mset_eq_imp_distinct_iff)

lemma Representative_in_class:
  "x \<in> set (concat p) \<Longrightarrow> \<exists>c\<in>set p. x \<in> set c \<and> Representative p x \<in> set c"
proof (induction p)
  case Nil
  then show ?case by simp
next
  case (Cons c p)
  show ?case
  proof (cases "x \<in> set c")
    case True
    then have "Min (set c) \<in> set c"
      by (intro Min_in) auto
    with True show ?thesis by simp
  next
    case False
    with Cons show ?thesis by auto
  qed
qed

lemma distinct_concat_class:
  "distinct (concat p) \<Longrightarrow> c1 \<in> set p \<Longrightarrow> c2 \<in> set p \<Longrightarrow> r \<in> set c1 \<Longrightarrow> r \<in> set c2 \<Longrightarrow>
   c1 = c2"
proof (induction p)
  case Nil
  then show ?case by simp
next
  case (Cons c p)
  from Cons.prems(1) have d: "distinct (concat p)" and disj: "set c \<inter> set (concat p) = {}"
    by auto
  have out: "r \<in> set (concat p)" if "c' \<in> set p" "r \<in> set c'" for c'
    using that by auto
  from Cons.prems(2,3) consider "c1 = c" "c2 = c" | "c1 = c" "c2 \<in> set p"
    | "c1 \<in> set p" "c2 = c" | "c1 \<in> set p" "c2 \<in> set p"
    by auto
  then show ?case
  proof cases
    case 1
    then show ?thesis by simp
  next
    case 2
    with out [of c2] Cons.prems(4,5) disj show ?thesis by blast
  next
    case 3
    with out [of c1] Cons.prems(4,5) disj show ?thesis by blast
  next
    case 4
    then show ?thesis
      by (rule Cons.IH [OF d _ _ Cons.prems(4,5)])
  qed
qed

lemma same_Representative:
  assumes "partition_of n p" and "x < n" and "y < n"
    and "Representative p x = Representative p y"
  shows "\<exists>c\<in>set p. x \<in> set c \<and> y \<in> set c"
proof -
  from assms(2,3) have "x \<in> {0..<n}" "y \<in> {0..<n}"
    by simp_all
  then have "x \<in> set (concat p)" "y \<in> set (concat p)"
    unfolding partition_of_set [OF assms(1), symmetric] .
  from Representative_in_class [OF this(1)] Representative_in_class [OF this(2)]
  obtain c1 c2 where c1: "c1 \<in> set p" "x \<in> set c1" "Representative p x \<in> set c1"
    and c2: "c2 \<in> set p" "y \<in> set c2" "Representative p y \<in> set c2"
    by blast
  from distinct_concat_class [OF partition_of_distinct [OF assms(1)] c1(1) c2(1) c1(3)] c2(3) assms(4)
  have "c1 = c2" by simp
  with c1 c2 show ?thesis by blast
qed

lemma refine_loop_sound:
  "refine_loop MaxChar detTran dl n clMap p = Inr (n', p') \<Longrightarrow>
   partition_of N p \<Longrightarrow> length clMap = N \<Longrightarrow> pairwise_in S p \<Longrightarrow>
   \<forall>a<N. \<forall>l\<in>set dl. detTran ! (a * MaxChar + l) < N \<Longrightarrow>
   (map (Representative p) [0..<N] = clMap \<longrightarrow> stable MaxChar detTran dl p) \<Longrightarrow>
   partition_of N p' \<and> pairwise_in S p' \<and> stable MaxChar detTran dl p'"
proof (induction MaxChar detTran dl n clMap p rule: refine_loop.induct)
  case (1 MaxChar detTran dl n clMap p)
  note part = "1.prems"(2) and len = "1.prems"(3) and pw = "1.prems"(4)
    and bound = "1.prems"(5) and st = "1.prems"(6)
  from "1.prems"(1) show ?case
  proof (cases rule: refine_loop_cases)
    case stop
    with part len pw st show ?thesis by simp
  next
    case round
    let ?m = "map (Representative p) [0..<length clMap]"
    let ?eq = "MinimizeEquality MaxChar detTran dl (Some ?m) None"
    let ?q = "Split ?eq p"
    from round(1,2) have upd: "UpdateStateClassMap clMap p = Inr (True, ?m)"
      by (simp add: UpdateStateClassMap_eq)
    from part have part_q: "partition_of N ?q"
      by (simp add: partition_of_def Split_mset Split_nonempty)
    have pw_q: "pairwise_in S ?q"
      unfolding pairwise_in_def
    proof (intro ballI)
      fix c' a b
      assume "c' \<in> set ?q" "a \<in> set c'" "b \<in> set c'"
      with Split_refines [of c' ?eq p] obtain c where "c \<in> set p" "a \<in> set c" "b \<in> set c"
        by blast
      with pw show "S a b"
        unfolding pairwise_in_def by blast
    qed
    have st_q: "stable MaxChar detTran dl ?q" if same: "map (Representative ?q) [0..<N] = ?m"
      unfolding stable_def
    proof (intro ballI)
      fix c a b l
      assume c: "c \<in> set ?q" "a \<in> set c" "b \<in> set c" and l: "l \<in> set dl"
      let ?ta = "detTran ! (a * MaxChar + l)" and ?tb = "detTran ! (b * MaxChar + l)"
      from c partition_of_set [OF part_q] have "a < N" "b < N" by auto
      with bound l have t: "?ta < N" "?tb < N" by auto
      from Split_refine_pairwise [of MaxChar detTran dl ?m p] c have "?eq a b"
        unfolding pairwise_in_def by blast
      with l have "?m ! ?ta = ?m ! ?tb"
        unfolding MinimizeEquality_refine by blast
      with t len have "Representative p ?ta = Representative p ?tb"
        by simp
      moreover have "Representative ?q t = Representative p t" if "t < N" for t
      proof -
        from same have "map (Representative ?q) [0..<N] ! t = ?m ! t"
          by (rule arg_cong)
        with that len show ?thesis by simp
      qed
      ultimately have "Representative ?q ?ta = Representative ?q ?tb"
        using t by simp
      from same_Representative [OF part_q t this]
      show "\<exists>c'\<in>set ?q. ?ta \<in> set c' \<and> ?tb \<in> set c'" .
    qed
    from st_q have st_q': "map (Representative ?q) [0..<N] = ?m \<longrightarrow>
        stable MaxChar detTran dl ?q"
      by blast
    from len have len_m: "length ?m = N" by simp
    show ?thesis
      by (rule "1.IH" [OF upd refl TrueI round(3) part_q len_m pw_q bound st_q'])
  qed
qed

text \<open>
  Claim C4. For a task within the contract, when \<^verbatim>\<open>Minimize(task)\<close> succeeds the
  partition it hands to \<^verbatim>\<open>AcceptPartition\<close> is a partition of the states, and any two
  states \<open>a\<close> and \<open>b\<close> of one class satisfy \<^verbatim>\<open>SameClasses(a, b)\<close> and, for every symbol of
  every letter class, \<^verbatim>\<open>Next(a, l)\<close> and \<^verbatim>\<open>Next(b, l)\<close> lie in one class.
\<close>

theorem Minimize_sound:
  assumes "task_contract MaxChar task" and "Minimize MaxChar task = Inr (Success, tr)"
  shows "\<exists>p. tr = [AcceptPartition p] \<and> mset (concat p) = mset [0..<Size task] \<and>
     (\<forall>c\<in>set p. \<forall>a\<in>set c. \<forall>b\<in>set c.
        SameClasses task a b \<and>
        (\<forall>e\<in>set (Letters task). \<forall>l\<in>set (snd (snd e)).
           \<exists>c'\<in>set p. Next task a l \<in> set c' \<and> Next task b l \<in> set c'))"
proof -
  let ?N = "Size task"
  let ?dl = "fst (build_table MaxChar task)" and ?tbl = "snd (build_table MaxChar task)"
  let ?eq0 = "MinimizeEquality MaxChar ?tbl ?dl None (Some task)"
  let ?p0 = "fold (Append ?eq0) [0..<?N] []"
  from assms(2) obtain n p where tr: "tr = [AcceptPartition p]"
    and "Minimize_refine MaxChar task = Inr (n, p)"
    by (auto simp: Minimize_def split: if_splits sum.splits)
  then have run: "refine_loop MaxChar ?tbl ?dl 0 (replicate ?N 0) ?p0 = Inr (n, p)"
    by (simp add: Minimize_refine_unfold)
  note contract = assms(1) [unfolded task_contract_def]
  note letters = contract [THEN conjunct1]
  note inside = contract [THEN conjunct2, THEN conjunct1]
  note refl = contract [THEN conjunct2, THEN conjunct2, THEN conjunct1]
  note sym = contract [THEN conjunct2, THEN conjunct2, THEN conjunct2, THEN conjunct1]
  note trans = contract [THEN conjunct2, THEN conjunct2, THEN conjunct2, THEN conjunct2]
  have rep_mem: "fst e \<in> set (snd (snd e))" if "e \<in> set (Letters task)" for e
    using letters that by blast
  have same_next: "Next task s l = Next task s (fst e)"
    if "e \<in> set (Letters task)" "l \<in> set (snd (snd e))" "s < ?N" for e l s
  proof -
    from that(3) have "s \<in> {0..<?N}" by simp
    with letters that(1,2) show ?thesis by blast
  qed
  have eq0: "?eq0 = SameClasses task"
    by (intro ext) (rule MinimizeEquality_initial)
  have part0: "partition_of ?N ?p0"
    unfolding partition_of_def
    by (simp add: fold_Append_mset fold_Append_nonempty)
  have pw0: "pairwise_in (SameClasses task) ?p0"
    unfolding eq0
  proof (rule fold_Append_pairwise [where A = "{0..<?N}"])
    show "SameClasses task a a" if "a \<in> {0..<?N}" for a
      using that refl by blast
    show "SameClasses task b a" if "a \<in> {0..<?N}" "b \<in> {0..<?N}" "SameClasses task a b" for a b
      using that sym by blast
    show "SameClasses task a c"
      if "a \<in> {0..<?N}" "b \<in> {0..<?N}" "c \<in> {0..<?N}" "SameClasses task a b" "SameClasses task b c"
      for a b c
      using that trans by blast
    show "set [0..<?N] \<subseteq> {0..<?N}" and "set (concat []) \<subseteq> {0..<?N}"
      by simp_all
    show "pairwise_in (SameClasses task) []"
      by (simp add: pairwise_in_def)
  qed
  have cell: "?tbl ! (a * MaxChar + fst e) = Next task a (fst e)"
    if "a < ?N" "e \<in> set (Letters task)" for a e
    by (rule build_table_nth [OF assms(1) that rep_mem [OF that(2)]])
  have bound: "\<forall>a<?N. \<forall>l\<in>set ?dl. ?tbl ! (a * MaxChar + l) < ?N"
  proof (intro allI impI ballI)
    fix a l
    assume a: "a < ?N" and "l \<in> set ?dl"
    then obtain e where e: "e \<in> set (Letters task)" "l = fst e"
      by (auto simp: build_table_letters)
    from a have "a \<in> {0..<?N}" by simp
    with inside e(1) have "Next task a (fst e) < ?N" by blast
    with cell [OF a e(1)] e(2) show "?tbl ! (a * MaxChar + l) < ?N"
      by simp
  qed
  have st0: "map (Representative ?p0) [0..<?N] = replicate ?N 0 \<longrightarrow>
      stable MaxChar ?tbl ?dl ?p0"
  proof
    assume zero: "map (Representative ?p0) [0..<?N] = replicate ?N 0"
    have rep0: "Representative ?p0 t = 0" if "t < ?N" for t
    proof -
      from zero have "map (Representative ?p0) [0..<?N] ! t = replicate ?N 0 ! t"
        by (rule arg_cong)
      with that show ?thesis by simp
    qed
    show "stable MaxChar ?tbl ?dl ?p0"
      unfolding stable_def
    proof (intro ballI)
      fix c a b l
      assume c: "c \<in> set ?p0" "a \<in> set c" "b \<in> set c" and l: "l \<in> set ?dl"
      from c partition_of_set [OF part0] have "a < ?N" "b < ?N" by auto
      with bound l have t: "?tbl ! (a * MaxChar + l) < ?N" "?tbl ! (b * MaxChar + l) < ?N"
        by auto
      then have "Representative ?p0 (?tbl ! (a * MaxChar + l)) =
          Representative ?p0 (?tbl ! (b * MaxChar + l))"
        by (simp add: rep0)
      from same_Representative [OF part0 t this]
      show "\<exists>c'\<in>set ?p0. ?tbl ! (a * MaxChar + l) \<in> set c' \<and> ?tbl ! (b * MaxChar + l) \<in> set c'" .
    qed
  qed
  from refine_loop_sound [OF run part0 _ pw0 bound st0]
  have part: "partition_of ?N p" and pw: "pairwise_in (SameClasses task) p"
    and st: "stable MaxChar ?tbl ?dl p"
    by simp_all
  have succ: "\<exists>c'\<in>set p. Next task a l \<in> set c' \<and> Next task b l \<in> set c'"
    if c: "c \<in> set p" "a \<in> set c" "b \<in> set c" and e: "e \<in> set (Letters task)"
      and l: "l \<in> set (snd (snd e))" for c a b e l
  proof -
    from c partition_of_set [OF part] have ab: "a < ?N" "b < ?N" by auto
    from e have "fst e \<in> set ?dl"
      by (simp add: build_table_letters)
    with st c obtain c' where c': "c' \<in> set p"
      "?tbl ! (a * MaxChar + fst e) \<in> set c'" "?tbl ! (b * MaxChar + fst e) \<in> set c'"
      unfolding stable_def by blast
    from c'(2,3) have "Next task a l \<in> set c'" "Next task b l \<in> set c'"
      by (simp_all only: cell [OF ab(1) e] cell [OF ab(2) e]
          same_next [OF e l ab(1)] same_next [OF e l ab(2)])
    with c'(1) show ?thesis by blast
  qed
  from part have ms: "mset (concat p) = mset [0..<?N]"
    by (simp add: partition_of_def)
  show ?thesis
  proof (intro exI conjI ballI)
    show "tr = [AcceptPartition p]" by fact
    show "mset (concat p) = mset [0..<?N]" by fact
  next
    fix c a b
    assume "c \<in> set p" "a \<in> set c" "b \<in> set c"
    with pw show "SameClasses task a b"
      unfolding pairwise_in_def by blast
  next
    fix c a b e l
    assume "c \<in> set p" "a \<in> set c" "b \<in> set c" "e \<in> set (Letters task)"
      "l \<in> set (snd (snd e))"
    then show "\<exists>c'\<in>set p. Next task a l \<in> set c' \<and> Next task b l \<in> set c'"
      by (rule succ)
  qed
qed

theorem Minimize_sound_witness:
  "task_contract 3 ends_in_a \<and>
   Minimize 3 ends_in_a = Inr (Success, [AcceptPartition [[0, 1], [2, 3]]]) \<and>
   (\<exists>p. [AcceptPartition [[0, 1], [2, 3]]] = [AcceptPartition p] \<and>
      mset (concat p) = mset [0..<Size ends_in_a] \<and>
      (\<forall>c\<in>set p. \<forall>a\<in>set c. \<forall>b\<in>set c.
        SameClasses ends_in_a a b \<and>
        (\<forall>e\<in>set (Letters ends_in_a). \<forall>l\<in>set (snd (snd e)).
           \<exists>c'\<in>set p. Next ends_in_a a l \<in> set c' \<and> Next ends_in_a b l \<in> set c')))"
proof -
  have ok: "task_contract 3 ends_in_a"
    unfolding task_contract_def ends_in_a_def
    by (simp add: atLeastLessThan_upt upt_rec)
  have run: "Minimize 3 ends_in_a = Inr (Success, [AcceptPartition [[0, 1], [2, 3]]])"
    by code_simp
  show ?thesis
    by (rule conjI [OF ok conjI [OF run Minimize_sound [OF ok run]]])
qed

end
